theory Spec2Isabelle
  imports Main
begin

section \<open>Go strings, runes and UTF-8 decoding\<close>

text \<open>
  A Go string is a sequence of bytes; it is modelled as \<open>string\<close>, whose characters are
  bytes. The \<open>regexp\<close> package reads a string rune by rune: it decodes one code point at
  each position with \<open>utf8.DecodeRuneInString\<close>, and an invalid byte counts as the rune
  U+FFFD of width one. \<open>strings.Replacer\<close> and the slice expressions of the source work on
  bytes.
\<close>

type_synonym rune = nat

datatype error = IndexOutOfRange | SliceOutOfRange | TypeAssertion

definition RuneError :: rune where
  "RuneError = 0xFFFD"

definition byte :: "char \<Rightarrow> nat" where
  "byte c = of_char c"

definition backslash :: char where
  "backslash = CHR 0x5C"

definition is_cont :: "nat \<Rightarrow> nat \<Rightarrow> char \<Rightarrow> bool" where
  \<comment> \<open>the second byte lies in the accept range \<open>lo..hi\<close> of the first one\<close>
  "is_cont lo hi c = (lo \<le> byte c \<and> byte c \<le> hi)"

text \<open>
  \<open>utf8.DecodeRuneInString\<close>: the rune at the head of the string and its width in bytes.
  The table \<open>first\<close> of the package gives the size and the accept range of the second byte
  for each leading byte: \<open>C2..DF\<close> two bytes, \<open>E0\<close> three bytes with second byte
  \<open>A0..BF\<close>, \<open>E1..EC\<close> and \<open>EE..EF\<close> three bytes, \<open>ED\<close> three bytes with second byte
  \<open>80..9F\<close>, \<open>F0\<close> four bytes with second byte \<open>90..BF\<close>, \<open>F1..F3\<close> four bytes, \<open>F4\<close>
  four bytes with second byte \<open>80..8F\<close>; every other byte from \<open>80\<close> on is invalid. A mask
  \<open>b & (2^k - 1)\<close> is written \<open>b mod 2^k\<close>, a shift \<open>x << k\<close> as \<open>x * 2^k\<close>. The parts that \<open>|\<close>
  joins have no bit in common, so the join is written \<open>+\<close>.
\<close>

definition decode2 :: "nat \<Rightarrow> string \<Rightarrow> rune \<times> nat" where
  "decode2 b0 cs =
     (case cs of
        c1 # _ \<Rightarrow>
          if is_cont 0x80 0xBF c1 then ((b0 mod 32) * 64 + byte c1 mod 64, 2)
          else (RuneError, 1)
      | _ \<Rightarrow> (RuneError, 1))"

definition decode3 :: "nat \<Rightarrow> nat \<Rightarrow> nat \<Rightarrow> string \<Rightarrow> rune \<times> nat" where
  "decode3 lo hi b0 cs =
     (case cs of
        c1 # c2 # _ \<Rightarrow>
          if is_cont lo hi c1 \<and> is_cont 0x80 0xBF c2
          then ((b0 mod 16) * 4096 + (byte c1 mod 64) * 64 + byte c2 mod 64, 3)
          else (RuneError, 1)
      | _ \<Rightarrow> (RuneError, 1))"

definition decode4 :: "nat \<Rightarrow> nat \<Rightarrow> nat \<Rightarrow> string \<Rightarrow> rune \<times> nat" where
  "decode4 lo hi b0 cs =
     (case cs of
        c1 # c2 # c3 # _ \<Rightarrow>
          if is_cont lo hi c1 \<and> is_cont 0x80 0xBF c2 \<and> is_cont 0x80 0xBF c3
          then ((b0 mod 8) * 262144 + (byte c1 mod 64) * 4096
                + (byte c2 mod 64) * 64 + byte c3 mod 64, 4)
          else (RuneError, 1)
      | _ \<Rightarrow> (RuneError, 1))"

fun DecodeRuneInString :: "string \<Rightarrow> rune \<times> nat" where
  "DecodeRuneInString [] = (RuneError, 0)"
| "DecodeRuneInString (c # cs) =
     (let b0 = byte c in
      if b0 < 0x80 then (b0, 1)
      else if b0 < 0xC2 then (RuneError, 1)
      else if b0 < 0xE0 then decode2 b0 cs
      else if b0 = 0xE0 then decode3 0xA0 0xBF b0 cs
      else if b0 = 0xED then decode3 0x80 0x9F b0 cs
      else if b0 < 0xF0 then decode3 0x80 0xBF b0 cs
      else if b0 = 0xF0 then decode4 0x90 0xBF b0 cs
      else if b0 < 0xF4 then decode4 0x80 0xBF b0 cs
      else if b0 = 0xF4 then decode4 0x80 0x8F b0 cs
      else (RuneError, 1))"

definition rune_at :: "string \<Rightarrow> rune" where
  "rune_at s = fst (DecodeRuneInString s)"

definition width_at :: "string \<Rightarrow> nat" where
  "width_at s = snd (DecodeRuneInString s)"

text \<open>The runes of a string, as a \<open>for _, r := range s\<close> loop reads them.\<close>

function runes :: "string \<Rightarrow> rune list" where
  "runes s = (if s = [] \<or> width_at s = 0 then [] else rune_at s # runes (drop (width_at s) s))"
  by pat_completeness auto
termination
  by (relation "measure length") auto

declare runes.simps [simp del]

section \<open>Regular expressions: the leftmost-first matching of Go's regexp\<close>

text \<open>
  The syntax needed by the three patterns of the source: a class of runes (a literal is
  the class of one rune), concatenation, alternation, the greedy \<open>?\<close> and \<open>*\<close>, and a
  numbered capture group.
\<close>

datatype regex =
    Cls "rune \<Rightarrow> bool"
  | Cat regex regex
  | Alt regex regex
  | Opt regex
  | Star regex
  | Grp nat regex

definition Lit :: "char \<Rightarrow> regex" where
  "Lit c = Cls (\<lambda>r. r = byte c)"

fun Str :: "string \<Rightarrow> regex" where
  "Str [] = Cls (\<lambda>_. False)"
| "Str [c] = Lit c"
| "Str (c # cs) = Cat (Lit c) (Str cs)"

text \<open>
  A matcher state is the input that is left and the text captured by each group so far.
  \<open>backtrack r st\<close> lists the states in which a match of \<open>r\<close> from \<open>st\<close> can end, in the
  order in which a backtracking matcher tries them: the left alternative before the right
  one, one more iteration of a star before leaving it, the optional part before skipping
  it. The first state of the list is the match that Go reports (leftmost-first).
\<close>

type_synonym captures = "(nat \<times> string) list"
type_synonym mstate = "string \<times> captures"

function backtrack :: "regex \<Rightarrow> mstate \<Rightarrow> mstate list" where
  "backtrack (Cls p) (s, c) =
     (if s \<noteq> [] \<and> p (rune_at s) then [(drop (width_at s) s, c)] else [])"
| "backtrack (Cat a b) st = concat (map (backtrack b) (backtrack a st))"
| "backtrack (Alt a b) st = backtrack a st @ backtrack b st"
| "backtrack (Opt a) st = backtrack a st @ [st]"
| "backtrack (Star a) (s, c) =
     concat (map (\<lambda>st'. if length (fst st') < length s then backtrack (Star a) st' else [])
                 (backtrack a (s, c)))
     @ [(s, c)]"
| "backtrack (Grp n a) (s, c) =
     map (\<lambda>st'. (fst st', (n, take (length s - length (fst st')) s) # snd st'))
         (backtrack a (s, c))"
  by pat_completeness auto
termination
  by (relation "inv_image (less_than <*lex*> less_than) (\<lambda>(r, st). (size r, length (fst st)))")
     auto


lemma width_at_pos: "s \<noteq> [] \<Longrightarrow> 0 < width_at s"
  by (cases s)
     (auto simp: width_at_def decode2_def decode3_def decode4_def Let_def split: list.splits)

lemma width_at_le: "width_at s \<le> length s"
  by (cases s)
     (auto simp: width_at_def decode2_def decode3_def decode4_def Let_def split: list.splits)

lemma backtrack_suffix:
  "st' \<in> set (backtrack r st) \<Longrightarrow> \<exists>k. fst st' = drop k (fst st)"
proof (induction r st arbitrary: st' rule: backtrack.induct)
  case (1 p s c)
  then show ?case by (auto split: if_splits)
next
  case (2 a b st)
  from "2.prems" obtain m where m: "m \<in> set (backtrack a st)" "st' \<in> set (backtrack b m)"
    by auto
  from "2.IH"(1)[OF m(1)] obtain k where k: "fst m = drop k (fst st)" by blast
  from "2.IH"(2)[OF m(1) m(2)] obtain j where "fst st' = drop j (fst m)" by blast
  with k have "fst st' = drop (j + k) (fst st)" by simp
  then show ?case by blast
next
  case (3 a b st)
  from "3.prems" have "st' \<in> set (backtrack a st) \<or> st' \<in> set (backtrack b st)" by simp
  then show ?case using "3.IH" by blast
next
  case (4 a st)
  from "4.prems" have "st' \<in> set (backtrack a st) \<or> st' = st" by auto
  then show ?case
  proof
    assume "st' \<in> set (backtrack a st)"
    then show ?thesis by (rule "4.IH")
  next
    assume "st' = st"
    then have "fst st' = drop 0 (fst st)" by simp
    then show ?thesis by blast
  qed
next
  case (5 a s c)
  from "5.prems" consider
      m where "m \<in> set (backtrack a (s, c))" "length (fst m) < length s"
              "st' \<in> set (backtrack (Star a) m)"
    | "st' = (s, c)"
    by (auto split: if_splits)
  then show ?case
  proof cases
    case 1
    from "5.IH"(1)[OF 1(1)] obtain k where k: "fst m = drop k s" by auto
    from "5.IH"(2)[OF 1(1) 1(2) 1(3)] obtain j where "fst st' = drop j (fst m)" by blast
    with k have "fst st' = drop (j + k) (fst (s, c))" by simp
    then show ?thesis by blast
  next
    case 2
    then have "fst st' = drop 0 (fst (s, c))" by simp
    then show ?thesis by blast
  qed
next
  case (6 n a s c)
  from "6.prems" obtain m where "m \<in> set (backtrack a (s, c))" "fst st' = fst m" by auto
  then show ?case using "6.IH"[of m] by simp
qed

text \<open>
  The match of \<open>re\<close> that starts at the head of \<open>s\<close>, if there is one: its length in bytes
  and its captures.
\<close>

definition match_here :: "regex \<Rightarrow> string \<Rightarrow> (nat \<times> captures) option" where
  "match_here re s =
     (case backtrack re (s, []) of
        [] \<Rightarrow> None
      | st # _ \<Rightarrow> Some (length s - length (fst st), snd st))"

lemma match_here_le: "match_here re s = Some (n, c) \<Longrightarrow> n \<le> length s"
  by (auto simp: match_here_def split: list.splits)

text \<open>
  \<open>Regexp.doExecute\<close> from position \<open>pos\<close>: the leftmost match that starts at \<open>pos\<close> or
  later, as its start, its end and its captures. The start moves forward one rune at a
  time.
\<close>

function doExecute :: "regex \<Rightarrow> string \<Rightarrow> nat \<Rightarrow> (nat \<times> nat \<times> captures) option" where
  "doExecute re s pos =
     (case match_here re (drop pos s) of
        Some (n, c) \<Rightarrow> Some (pos, pos + n, c)
      | None \<Rightarrow>
          if length s \<le> pos then None
          else doExecute re s (pos + width_at (drop pos s)))"
  by pat_completeness auto
termination
proof (relation "measure (\<lambda>(re, s, pos). length s - pos)")
  show "wf (measure (\<lambda>(re, s, pos). length s - pos))" by simp
next
  fix re :: regex and s :: string and pos :: nat
  assume "\<not> length s \<le> pos"
  then have "drop pos s \<noteq> []" by simp
  then have "0 < width_at (drop pos s)" by (rule width_at_pos)
  with \<open>\<not> length s \<le> pos\<close>
  show "((re, s, pos + width_at (drop pos s)), (re, s, pos))
          \<in> measure (\<lambda>(re, s, pos). length s - pos)"
    by simp
qed

lemma doExecute_bounds:
  "doExecute re s pos = Some (a, b, c) \<Longrightarrow> pos \<le> length s
     \<Longrightarrow> pos \<le> a \<and> a \<le> b \<and> b \<le> length s"
proof (induction re s pos rule: doExecute.induct)
  case (1 re s pos)
  show ?case
  proof (cases "match_here re (drop pos s)")
    case (Some nc)
    obtain n c' where nc: "nc = (n, c')" by (cases nc)
    from Some nc have "n \<le> length s - pos" using match_here_le[of re "drop pos s" n c'] by simp
    moreover from "1.prems"(1) Some nc have "a = pos" "b = pos + n"
      by (simp_all add: doExecute.simps[of re s pos])
    ultimately show ?thesis using "1.prems"(2) by simp
  next
    case None
    show ?thesis
    proof (cases "length s \<le> pos")
      case True
      with None "1.prems"(1) show ?thesis by (simp add: doExecute.simps[of re s pos])
    next
      case False
      from None False "1.prems"(1)
      have ex: "doExecute re s (pos + width_at (drop pos s)) = Some (a, b, c)"
        by (simp add: doExecute.simps[of re s pos])
      have "width_at (drop pos s) \<le> length (drop pos s)" by (rule width_at_le)
      with False have "pos + width_at (drop pos s) \<le> length s" by simp
      from "1.IH"[OF None False ex this] show ?thesis by simp
    qed
  qed
qed

declare doExecute.simps [simp del]


text \<open>
  \<open>Regexp.allMatches\<close>, the loop behind \<open>FindAllStringIndex(s, -1)\<close>: successive
  leftmost matches, the next search starting where the last match ended. An empty match
  moves the search one rune forward and is dropped when it touches the end of the match
  before it (\<open>prevMatchEnd\<close>, \<open>-1\<close> at the start). For \<open>n = -1\<close> the bound on the number of
  matches is \<open>len(s) + 1\<close>, more than a string of that length can hold, so the loop
  ends by running out of input.
\<close>

function allMatches :: "regex \<Rightarrow> string \<Rightarrow> nat \<Rightarrow> int \<Rightarrow> (nat \<times> nat \<times> captures) list" where
  "allMatches re s pos prevMatchEnd =
     (if length s < pos then []
      else
        (case doExecute re s pos of
           None \<Rightarrow> []
         | Some (a, b, c) \<Rightarrow>
             if b = pos then
               (let width = width_at (drop pos s);
                    pos' = (if 0 < width then pos + width else length s + 1);
                    rest = allMatches re s pos' (int b)
                in if int a = prevMatchEnd then rest else (a, b, c) # rest)
             else (a, b, c) # allMatches re s b (int b)))"
  by pat_completeness auto
termination
  apply (relation "measure (\<lambda>(re, s, pos, prev). length s + 1 - pos)")
  subgoal by simp
  subgoal by (auto split: if_splits)
  subgoal for re s pos prevMatchEnd x2 x y xa ya
    using doExecute_bounds[of re s pos x xa ya] by auto
  done

declare allMatches.simps [simp del]

definition FindAllStringIndex :: "regex \<Rightarrow> string \<Rightarrow> (nat \<times> nat) list" where
  \<comment> \<open>the result is \<open>nil\<close> when there is no match: the empty list\<close>
  "FindAllStringIndex re s = map (\<lambda>(a, b, c). (a, b)) (allMatches re s 0 (- 1))"

text \<open>
  \<open>Regexp.replaceAll\<close>, the loop behind \<open>ReplaceAllString\<close> and
  \<open>ReplaceAllStringFunc\<close>: the text between the matches is copied and \<open>repl\<close> gives what
  stands for each match. \<open>repl\<close> may panic (it runs code of the caller), and the panic is
  the result of the whole call.
\<close>

function replaceAll ::
  "regex \<Rightarrow> string \<Rightarrow> (nat \<times> nat \<times> captures \<Rightarrow> error + string) \<Rightarrow> nat \<Rightarrow> nat \<Rightarrow> string
     \<Rightarrow> error + string" where
  "replaceAll re src repl lastMatchEnd searchPos buf =
     (if length src < searchPos then Inr (buf @ drop lastMatchEnd src)
      else
        (case doExecute re src searchPos of
           None \<Rightarrow> Inr (buf @ drop lastMatchEnd src)
         | Some (a0, a1, c) \<Rightarrow>
             (case (if lastMatchEnd < a1 \<or> a0 = 0 then repl (a0, a1, c) else Inr []) of
                Inl e \<Rightarrow> Inl e
              | Inr new \<Rightarrow>
                  (let width = width_at (drop searchPos src);
                       searchPos' =
                         (if a1 < searchPos + width then searchPos + width
                          else if a1 < searchPos + 1 then searchPos + 1
                          else a1)
                   in replaceAll re src repl a1 searchPos'
                        (buf @ take (a0 - lastMatchEnd) (drop lastMatchEnd src) @ new)))))"
  by pat_completeness auto
termination
  apply (relation "measure (\<lambda>(re, src, repl, l, searchPos, buf). length src + 1 - searchPos)")
  subgoal by simp
  subgoal for re src repl lastMatchEnd searchPos buf x2 x y xa ya x2a xb xc
    using doExecute_bounds[of re src searchPos x xa ya] by (auto split: if_splits)
  done

declare replaceAll.simps [simp del]

definition ReplaceAllStringFunc :: "regex \<Rightarrow> string \<Rightarrow> (string \<Rightarrow> error + string) \<Rightarrow> error + string" where
  "ReplaceAllStringFunc re src repl =
     replaceAll re src (\<lambda>(a0, a1, c). repl (take (a1 - a0) (drop a0 src))) 0 0 []"

text \<open>
  \<open>ReplaceAllString(src, "$1")\<close>: the template \<open>$1\<close> expands to the text of the first
  capture group, and to nothing when the group took no part in the match.
\<close>

definition expand_group1 :: "captures \<Rightarrow> string" where
  "expand_group1 c = (case map_of c 1 of Some t \<Rightarrow> t | None \<Rightarrow> [])"

definition ReplaceAllString_group1 :: "regex \<Rightarrow> string \<Rightarrow> string" where
  "ReplaceAllString_group1 re src =
     (case replaceAll re src (\<lambda>(a0, a1, c). Inr (expand_group1 c)) 0 0 [] of
        Inr out \<Rightarrow> out
      | Inl e \<Rightarrow> [])"

section \<open>Slices, prefixes and the byte replacer\<close>

text \<open>The slice expressions \<open>s[lo:hi]\<close>, \<open>s[:hi]\<close> and \<open>s[lo:]\<close> panic out of range.\<close>

definition slice :: "string \<Rightarrow> nat \<Rightarrow> nat \<Rightarrow> error + string" where
  "slice s lo hi =
     (if lo \<le> hi \<and> hi \<le> length s then Inr (take (hi - lo) (drop lo s))
      else Inl SliceOutOfRange)"

definition slice_to :: "string \<Rightarrow> nat \<Rightarrow> error + string" where
  "slice_to s hi = slice s 0 hi"

definition slice_from :: "string \<Rightarrow> nat \<Rightarrow> error + string" where
  "slice_from s lo = slice s lo (length s)"

definition HasPrefix :: "string \<Rightarrow> string \<Rightarrow> bool" where
  "HasPrefix s prefix = (length prefix \<le> length s \<and> take (length prefix) s = prefix)"

definition HasSuffix :: "string \<Rightarrow> string \<Rightarrow> bool" where
  "HasSuffix s suffix =
     (length suffix \<le> length s \<and> drop (length s - length suffix) s = suffix)"

text \<open>
  \<open>strings.NewReplacer\<close> with patterns of one byte each: every byte of the input that is
  a pattern is replaced by its replacement, the first pair of a pattern winning, and every
  other byte is copied.
\<close>

definition Replace :: "(char \<times> string) list \<Rightarrow> string \<Rightarrow> string" where
  "Replace oldnew s =
     concat (map (\<lambda>c. case map_of oldnew c of Some new \<Rightarrow> new | None \<Rightarrow> [c]) s)"

section \<open>The formatter\<close>

subsection \<open>The escape fixer of \<open>renderDiscordMarkdown\<close>\<close>

definition escapeFixer :: regex where
  \<comment> \<open>\<^verbatim>\<open>\\(__[^_]|\*\*[^*])\<close>\<close>
  "escapeFixer =
     Cat (Lit backslash)
         (Grp 1 (Alt (Cat (Str ''__'') (Cls (\<lambda>r. r \<noteq> byte CHR ''_'')))
                     (Cat (Str ''**'') (Cls (\<lambda>r. r \<noteq> byte CHR ''*'')))))"

definition escapeFixer_repl :: "string \<Rightarrow> error + string" where
  \<comment> \<open>the function literal \<^verbatim>\<open>func(s string) string { return s[:2] + `\` + s[2:] }\<close>\<close>
  "escapeFixer_repl s =
     (case slice_to s 2 of
        Inl e \<Rightarrow> Inl e
      | Inr l \<Rightarrow>
          (case slice_from s 2 of
             Inl e \<Rightarrow> Inl e
           | Inr r \<Rightarrow> Inr (l @ [backslash] @ r)))"

definition fixEscapes :: "string \<Rightarrow> error + string" where
  \<comment> \<open>the first statement of \<open>renderDiscordMarkdown\<close>\<close>
  "fixEscapes text = ReplaceAllStringFunc escapeFixer text escapeFixer_repl"

definition renderDiscordMarkdown :: "(string \<Rightarrow> 'content) \<Rightarrow> string \<Rightarrow> error + 'content" where
  \<comment> \<open>\<open>RenderMarkdownCustom\<close> stands for the goldmark renderer, which is not part of the source\<close>
  "renderDiscordMarkdown RenderMarkdownCustom text =
     (case fixEscapes text of
        Inl e \<Rightarrow> Inl e
      | Inr text' \<Rightarrow> Inr (RenderMarkdownCustom text'))"

subsection \<open>Escaping\<close>

definition Zs :: "rune \<Rightarrow> bool" where
  \<comment> \<open>the Unicode category of space separators\<close>
  "Zs r = (r = 0x20 \<or> r = 0xA0 \<or> r = 0x1680 \<or> (0x2000 \<le> r \<and> r \<le> 0x200A)
           \<or> r = 0x202F \<or> r = 0x205F \<or> r = 0x3000)"

definition link_inner :: "rune \<Rightarrow> bool" where
  \<comment> \<open>\<^verbatim>\<open>[^<\p{Zs}\x{feff}]\<close>\<close>
  "link_inner r = (\<not> (r = byte CHR ''<'' \<or> Zs r \<or> r = 0xFEFF))"

definition link_final :: "rune \<Rightarrow> bool" where
  \<comment> \<open>\<^verbatim>\<open>[^"'),.:;\]\p{Zs}\x{feff}]\<close>\<close>
  "link_final r =
     (\<not> (r = byte (CHR 0x22) \<or> r = byte (CHR 0x27) \<or> r = byte CHR '')'' \<or> r = byte CHR '',''
         \<or> r = byte CHR ''.'' \<or> r = byte CHR '':'' \<or> r = byte CHR '';'' \<or> r = byte CHR '']''
         \<or> Zs r \<or> r = 0xFEFF))"

definition discordLinkRegex :: regex where
  \<comment> \<open>\<^verbatim>\<open>https?://[^<\p{Zs}\x{feff}]*[^"'),.:;\]\p{Zs}\x{feff}]\<close>\<close>
  "discordLinkRegex =
     Cat (Str ''http'')
         (Cat (Opt (Lit CHR ''s''))
              (Cat (Str ''://'') (Cat (Star (Cls link_inner)) (Cls link_final))))"

definition discordMarkdownEscaper :: "(char \<times> string) list" where
  "discordMarkdownEscaper =
     [(backslash, [backslash, backslash]),
      (CHR ''_'', [backslash, CHR ''_'']),
      (CHR ''*'', [backslash, CHR ''*'']),
      (CHR ''~'', [backslash, CHR ''~'']),
      (CHR ''`'', [backslash, CHR ''`'']),
      (CHR ''|'', [backslash, CHR ''|'']),
      (CHR ''<'', [backslash, CHR ''<''])]"

definition discordMarkdownUnscaper :: regex where
  \<comment> \<open>\<^verbatim>\<open>\\(.)\<close>: the dot is any rune but the line feed\<close>
  "discordMarkdownUnscaper = Cat (Lit backslash) (Grp 1 (Cls (\<lambda>r. r \<noteq> 10)))"

text \<open>
  The loop of \<open>escapeDiscordMarkdown\<close> over the matches, with the builder and \<open>offset\<close> as
  its state.
\<close>

fun escape_loop ::
  "string \<Rightarrow> (nat \<times> nat) list \<Rightarrow> string \<Rightarrow> nat \<Rightarrow> error + (string \<times> nat)" where
  "escape_loop s [] builder offset = Inr (builder, offset)"
| "escape_loop s ((start, end) # submatches) builder offset =
     (case slice s offset start of
        Inl e \<Rightarrow> Inl e
      | Inr outside \<Rightarrow>
          (case slice s start end of
             Inl e \<Rightarrow> Inl e
           | Inr link \<Rightarrow>
               escape_loop s submatches
                 (builder @ Replace discordMarkdownEscaper outside @ link) end))"

definition escapeDiscordMarkdown :: "string \<Rightarrow> error + string" where
  "escapeDiscordMarkdown s =
     (let submatches = FindAllStringIndex discordLinkRegex s in
      if submatches = [] then Inr (Replace discordMarkdownEscaper s)
      else
        (case escape_loop s submatches [] 0 of
           Inl e \<Rightarrow> Inl e
         | Inr (builder, offset) \<Rightarrow>
             (case slice_from s offset of
                Inl e \<Rightarrow> Inl e
              | Inr outside \<Rightarrow> Inr (builder @ Replace discordMarkdownEscaper outside))))"

definition unescape :: "string \<Rightarrow> string" where
  \<comment> \<open>\<^verbatim>\<open>discordMarkdownUnscaper.ReplaceAllString(s, "$1")\<close>\<close>
  "unescape s = ReplaceAllString_group1 discordMarkdownUnscaper s"

subsection \<open>The converters of \<open>matrixHTMLParser\<close>\<close>

definition MonospaceConverter :: "string \<Rightarrow> string" where
  "MonospaceConverter s0 =
     (let s = unescape s0;
          pre = (if HasPrefix s ''`'' then '' '' else []);
          suf = (if HasSuffix s ''`'' then '' '' else [])
      in ''``'' @ pre @ s @ suf @ ''``'')"

definition TextConverter :: "string \<Rightarrow> error + string" where
  "TextConverter s = escapeDiscordMarkdown s"

subsection \<open>Mentions: \<open>pillConverter\<close>\<close>

text \<open>
  The bridge behind a user, as far as \<open>pillConverter\<close> reads it. Each field is one of the
  lookups the function calls: \<open>Bot.ResolveAlias\<close> (\<open>None\<close> when it returns an error, the
  room id of the response otherwise), \<open>GetPortalByMXID\<close>, \<open>DB.Message.GetByMXID\<close>,
  \<open>ParsePuppetMXID\<close> and \<open>GetUserByMXID\<close> (\<open>None\<close> for a nil pointer). The pointers
  \<open>user\<close>, \<open>user.bridge\<close>, \<open>Bot\<close> and \<open>DB\<close> are taken to be set, as the bridge sets them
  when it starts.
\<close>

record PortalKey =
  ChannelID :: string
  Receiver :: string

record Portal =
  Key :: PortalKey
  GuildID :: string

text \<open>
  Modelled from the spec: the method \<open>DiscordProtoChannelID\<close> of a stored message is not
  part of the source; the message "exposes its native channel and native message
  identifiers", and the field below is the native channel identifier that the method
  returns.
\<close>

record Message =
  DiscordProtoChannelID :: string
  DiscordID :: string

datatype User = User (User_DiscordID: string) (bridge: Bridge)
  and Bridge =
    Bridge (ResolveAlias: "string \<Rightarrow> string option")
           (GetPortalByMXID: "string \<Rightarrow> Portal option")
           (GetByMXID: "PortalKey \<Rightarrow> string \<Rightarrow> Message option")
           (ParsePuppetMXID: "string \<Rightarrow> string \<times> bool")
           (GetUserByMXID: "string \<Rightarrow> User option")

text \<open>
  \<open>format.Context\<close> is a map from keys to values of any type; the values that the
  formatter stores are a user and a portal. The type assertion \<open>ctx[key].(*User)\<close> panics
  when the key is absent or holds something else.
\<close>

datatype ctx_value = UserPtr User | PortalPtr Portal

type_synonym Context = "string \<rightharpoonup> ctx_value"

definition formatterContextUserKey :: string where
  "formatterContextUserKey = ''fi.mau.discord.user''"

definition formatterContextPortalKey :: string where
  "formatterContextPortalKey = ''fi.mau.discord.portal''"

text \<open>
  The second half of \<open>pillConverter\<close>, from \<open>if mxid[0] == '!'\<close> on: \<open>mxid\<close> is the
  reference itself, or the room id an alias resolved to. Indexing an empty string panics.
\<close>

definition pill_target :: "User \<Rightarrow> string \<Rightarrow> string \<Rightarrow> string \<Rightarrow> error + string" where
  "pill_target user displayname mxid eventID =
     (case mxid of
        [] \<Rightarrow> Inl IndexOutOfRange
      | c # _ \<Rightarrow>
          if c = CHR ''!'' then
            (case GetPortalByMXID (bridge user) mxid of
               Some portal \<Rightarrow>
                 if eventID = [] then Inr (''<#'' @ ChannelID (Key portal) @ ''>'')
                 else
                   (case GetByMXID (bridge user) (Key portal) eventID of
                      Some msg \<Rightarrow>
                        (let guildID = (if GuildID portal = [] then ''@me'' else GuildID portal)
                         in Inr (''https://discord.com/channels/'' @ guildID @ ''/''
                                 @ DiscordProtoChannelID msg @ ''/'' @ DiscordID msg))
                    | None \<Rightarrow> Inr displayname)
             | None \<Rightarrow> Inr displayname)
          else if c = CHR ''@'' then
            (case ParsePuppetMXID (bridge user) mxid of
               (parsedID, ok) \<Rightarrow>
                 if ok then Inr (''<@'' @ parsedID @ ''>'')
                 else
                   (case GetUserByMXID (bridge user) mxid of
                      Some mentionedUser \<Rightarrow>
                        if User_DiscordID mentionedUser \<noteq> []
                        then Inr (''<@'' @ User_DiscordID mentionedUser @ ''>'')
                        else Inr displayname
                    | None \<Rightarrow> Inr displayname))
          else Inr displayname)"

definition pillConverter :: "string \<Rightarrow> string \<Rightarrow> string \<Rightarrow> Context \<Rightarrow> error + string" where
  "pillConverter displayname mxid eventID ctx =
     (case mxid of
        [] \<Rightarrow> Inr displayname
      | c # _ \<Rightarrow>
          (case ctx formatterContextUserKey of
             Some (UserPtr user) \<Rightarrow>
               if c = CHR ''#'' then
                 (case ResolveAlias (bridge user) mxid of
                    None \<Rightarrow> Inr displayname
                  | Some roomID \<Rightarrow> pill_target user displayname roomID eventID)
               else pill_target user displayname mxid eventID
           | _ \<Rightarrow> Inl TypeAssertion))"

subsection \<open>\<open>parseMatrixHTML\<close>\<close>

record MessageEventContent =
  Format :: string
  FormattedBody :: string
  Body :: string

definition FormatHTML :: string where
  "FormatHTML = ''org.matrix.custom.html''"

definition parseMatrixHTML ::
  "(string \<Rightarrow> Context \<Rightarrow> error + string) \<Rightarrow> Portal \<Rightarrow> User \<Rightarrow> MessageEventContent
     \<Rightarrow> error + string" where
  \<comment> \<open>\<open>Parse\<close> stands for \<open>matrixHTMLParser.Parse\<close>, the HTML walker of the library\<close>
  "parseMatrixHTML Parse portal user content =
     (if Format content = FormatHTML \<and> 0 < length (FormattedBody content)
      then Parse (FormattedBody content)
             [formatterContextUserKey \<mapsto> UserPtr user,
              formatterContextPortalKey \<mapsto> PortalPtr portal]
      else escapeDiscordMarkdown (Body content))"

section \<open>Direct readings of the code, for the proofs\<close>

text \<open>
  The definitions of this section are not translations of the source. They say directly,
  by recursion over the bytes of a string, what the calls of the \<open>regexp\<close> package in the
  source compute; the theorems below prove that the code does what they say.
\<close>

subsection \<open>The loops of the regexp package\<close>

text \<open>
  All three patterns of the source begin with an ASCII letter or a backslash and never
  match the empty string.
\<close>

definition ascii_start :: "regex \<Rightarrow> bool" where
  "ascii_start re =
     (\<forall>s n c. match_here re s = Some (n, c) \<longrightarrow> s \<noteq> [] \<and> byte (hd s) < 128 \<and> 0 < n)"

text \<open>
  The leftmost match in \<open>s\<close>, looked for one byte at a time: the number of bytes before
  it, its length and its captures.
\<close>

fun find1 :: "regex \<Rightarrow> string \<Rightarrow> (nat \<times> nat \<times> captures) option" where
  "find1 re [] = (case match_here re [] of Some (n, c) \<Rightarrow> Some (0, n, c) | None \<Rightarrow> None)"
| "find1 re (x # xs) =
     (case match_here re (x # xs) of
        Some (n, c) \<Rightarrow> Some (0, n, c)
      | None \<Rightarrow> (case find1 re xs of Some (a, n, c) \<Rightarrow> Some (Suc a, n, c) | None \<Rightarrow> None))"

text \<open>
  Replacing every match from left to right: where a match of \<open>n > 0\<close> bytes begins, \<open>g\<close>
  gives what stands for it and the scan goes on after it; any other byte is copied.
\<close>

function replace_spec ::
  "regex \<Rightarrow> (string \<Rightarrow> captures \<Rightarrow> error + string) \<Rightarrow> string \<Rightarrow> error + string" where
  "replace_spec re g s =
     (case match_here re s of
        Some (n, c) \<Rightarrow>
          if 0 < n then
            (case g (take n s) c of
               Inl e \<Rightarrow> Inl e
             | Inr new \<Rightarrow>
                 (case replace_spec re g (drop n s) of
                    Inl e \<Rightarrow> Inl e
                  | Inr out \<Rightarrow> Inr (new @ out)))
          else Inr s
      | None \<Rightarrow>
          (case s of
             [] \<Rightarrow> Inr []
           | x # xs \<Rightarrow>
               (case replace_spec re g xs of
                  Inl e \<Rightarrow> Inl e
                | Inr out \<Rightarrow> Inr (x # out))))"
  by pat_completeness auto
termination
proof (relation "measure (\<lambda>(re, g, s). length s)", goal_cases)
  case 1
  show ?case by simp
next
  case 2
  then show ?case by simp
next
  case (3 re g s x2 x y)
  then have "match_here re s = Some (x, y)" by simp
  from match_here_le[OF this] 3 show ?case by simp
qed

declare replace_spec.simps [simp del]

text \<open>The spans of all matches from left to right, as offsets into \<open>s\<close>.\<close>

function all_spec :: "regex \<Rightarrow> string \<Rightarrow> (nat \<times> nat) list" where
  "all_spec re s =
     (case match_here re s of
        Some (n, c) \<Rightarrow>
          if 0 < n then (0, n) # map (\<lambda>(a, b). (n + a, n + b)) (all_spec re (drop n s))
          else []
      | None \<Rightarrow>
          (case s of
             [] \<Rightarrow> []
           | x # xs \<Rightarrow> map (\<lambda>(a, b). (Suc a, Suc b)) (all_spec re xs)))"
  by pat_completeness auto
termination
proof (relation "measure (\<lambda>(re, s). length s)", goal_cases)
  case 1
  show ?case by simp
next
  case 2
  then show ?case by simp
next
  case (3 re s x2 x y)
  then have "match_here re s = Some (x, y)" by simp
  from match_here_le[OF this] 3 show ?case by simp
qed

declare all_spec.simps [simp del]

text \<open>
  Spans that follow one another from \<open>lo\<close> on and end by \<open>n\<close>, and the end of the last
  one.
\<close>

fun ordered :: "nat \<Rightarrow> (nat \<times> nat) list \<Rightarrow> nat \<Rightarrow> bool" where
  "ordered lo [] n = (lo \<le> n)"
| "ordered lo ((a, b) # ms) n = (lo \<le> a \<and> a \<le> b \<and> ordered b ms n)"

fun end_of :: "nat \<Rightarrow> (nat \<times> nat) list \<Rightarrow> nat" where
  "end_of lo [] = lo"
| "end_of lo ((a, b) # ms) = end_of b ms"

definition first_state :: "mstate list \<Rightarrow> mstate option" where
  "first_state sts = (case sts of [] \<Rightarrow> None | st # _ \<Rightarrow> Some st)"

subsection \<open>The escape fixer\<close>

text \<open>
  An occurrence of the fixer's pattern at the head of a string: a backslash, two equal
  delimiters, both \<open>_\<close> or both \<open>*\<close>, and a byte other than that delimiter. The match ends
  with the rune that this byte begins, so it is three bytes and the width of that rune
  long.
\<close>

fun fixer_len :: "string \<Rightarrow> nat option" where
  "fixer_len (b # d1 # d2 # x # rest) =
     (if b = backslash \<and> d1 = d2 \<and> (d1 = CHR ''_'' \<or> d1 = CHR ''*'') \<and> x \<noteq> d1
      then Some (3 + width_at (x # rest)) else None)"
| "fixer_len _ = None"

text \<open>
  The pass as one scan: at an occurrence the scan writes the backslash, the first
  delimiter, a new backslash, the second delimiter and the byte after it, and goes on
  behind that byte; any other byte is copied.
\<close>

fun fix_spec :: "string \<Rightarrow> string" where
  "fix_spec (b # d1 # d2 # x # rest) =
     (if b = backslash \<and> d1 = d2 \<and> (d1 = CHR ''_'' \<or> d1 = CHR ''*'') \<and> x \<noteq> d1
      then [b, d1, backslash, d2, x] @ fix_spec rest
      else b # fix_spec (d1 # d2 # x # rest))"
| "fix_spec (x # xs) = x # fix_spec xs"
| "fix_spec [] = []"

text \<open>
  No occurrence that the scan rewrites ends in a byte (a backslash, then) that begins
  another occurrence.
\<close>

fun no_overlap :: "string \<Rightarrow> bool" where
  "no_overlap (b # d1 # d2 # x # rest) =
     (if b = backslash \<and> d1 = d2 \<and> (d1 = CHR ''_'' \<or> d1 = CHR ''*'') \<and> x \<noteq> d1
      then fixer_len (x # rest) = None \<and> no_overlap rest
      else no_overlap (d1 # d2 # x # rest))"
| "no_overlap _ = True"

subsection \<open>The unescaper\<close>

text \<open>
  A match of the unescaper at the head of a string, a backslash and a rune that is no
  line feed, and un-escaping as one scan: at a backslash followed by a byte other than a
  line feed the backslash is dropped and the byte kept; any other byte is copied.
\<close>

fun unesc_len :: "string \<Rightarrow> nat option" where
  "unesc_len (b # x # rest) =
     (if b = backslash \<and> x \<noteq> CHR 0x0A then Some (1 + width_at (x # rest)) else None)"
| "unesc_len _ = None"

fun unescape_spec :: "string \<Rightarrow> string" where
  "unescape_spec (b # x # rest) =
     (if b = backslash \<and> x \<noteq> CHR 0x0A then x # unescape_spec rest
      else b # unescape_spec (x # rest))"
| "unescape_spec s = s"

subsection \<open>Escaping\<close>

text \<open>
  The escape tokens of the spec are the patterns of \<open>discordMarkdownEscaper\<close>. Escaping,
  position by position: the byte at position \<open>i\<close> gets a backslash before it when \<open>i\<close>
  lies in none of the spans and the byte is an escape token.
\<close>

definition EscapeToken :: "char set" where
  "EscapeToken =
     {backslash, CHR ''_'', CHR ''*'', CHR ''~'', CHR ''`'', CHR ''|'', CHR ''<''}"

definition in_span :: "(nat \<times> nat) list \<Rightarrow> nat \<Rightarrow> bool" where
  "in_span spans i = list_ex (\<lambda>(a, b). a \<le> i \<and> i < b) spans"

definition escaped_at :: "(nat \<times> nat) list \<Rightarrow> nat \<times> char \<Rightarrow> string" where
  "escaped_at spans =
     (\<lambda>(i, c). if \<not> in_span spans i \<and> c \<in> EscapeToken then [backslash, c] else [c])"

definition cells :: "(nat \<times> nat) list \<Rightarrow> nat \<Rightarrow> string \<Rightarrow> string" where
  \<comment> \<open>the bytes of \<open>t\<close> stand at the positions \<open>off\<close>, \<open>off + 1\<close>, ...\<close>
  "cells spans off t = concat (map (escaped_at spans) (enumerate off t))"

definition escape_spec :: "(nat \<times> nat) list \<Rightarrow> string \<Rightarrow> string" where
  "escape_spec spans s = cells spans 0 s"

subsection \<open>The link pattern\<close>

text \<open>
  What follows the scheme \<open>http://\<close> or \<open>https://\<close> at the head of a string, if it stands
  there.
\<close>

fun strip_prefix :: "string \<Rightarrow> string \<Rightarrow> string option" where
  "strip_prefix [] s = Some s"
| "strip_prefix (c # cs) [] = None"
| "strip_prefix (c # cs) (x # xs) = (if x = c then strip_prefix cs xs else None)"

definition scheme_rest :: "string \<Rightarrow> string option" where
  "scheme_rest s =
     (case strip_prefix ''http'' s of
        None \<Rightarrow> None
      | Some u \<Rightarrow>
          (case strip_prefix ''s://'' u of
             Some v \<Rightarrow> Some v
           | None \<Rightarrow> strip_prefix ''://'' u))"

text \<open>
  The length of the match of the two classes after the scheme: as many runes of the
  first class as possible, so that a rune of the second class still follows them.
\<close>

function link_tail :: "string \<Rightarrow> nat option" where
  "link_tail s =
     (if s = [] then None
      else
        (case (if link_inner (rune_at s) then link_tail (drop (width_at s) s) else None) of
           Some n \<Rightarrow> Some (width_at s + n)
         | None \<Rightarrow> if link_final (rune_at s) then Some (width_at s) else None))"
  by pat_completeness auto
termination
proof (relation "measure length", goal_cases)
  case 1
  show ?case by simp
next
  case (2 s)
  then show ?case using width_at_pos[of s] by simp
qed

declare link_tail.simps [simp del]

definition link_len :: "string \<Rightarrow> nat option" where
  "link_len s =
     (case scheme_rest s of
        None \<Rightarrow> None
      | Some v \<Rightarrow>
          (case link_tail v of
             None \<Rightarrow> None
           | Some n \<Rightarrow> Some (length s - length v + n)))"



subsection \<open>Mentions\<close>

text \<open>The three literal tokens of \<open>pillConverter\<close>.\<close>

definition is_token :: "string \<Rightarrow> bool" where
  "is_token t =
     ((\<exists>channel. t = ''<#'' @ channel @ ''>'')
      \<or> (\<exists>user. t = ''<@'' @ user @ ''>'')
      \<or> (\<exists>guild channel message.
            t = ''https://discord.com/channels/'' @ guild @ ''/'' @ channel @ ''/'' @ message))"

subsection \<open>Example values\<close>

text \<open>
  A bridge that knows nothing, a user of it, and a bridge with one direct-message portal
  and one stored message.
\<close>

definition no_bridge :: Bridge where
  "no_bridge = Bridge (\<lambda>_. None) (\<lambda>_. None) (\<lambda>_ _. None) (\<lambda>_. ([], False)) (\<lambda>_. None)"

definition example_user :: User where
  "example_user = User ''1234'' no_bridge"

definition dm_portal :: Portal where
  "dm_portal = \<lparr>Key = \<lparr>ChannelID = ''77'', Receiver = ''1234''\<rparr>, GuildID = []\<rparr>"

definition dm_message :: Message where
  "dm_message = \<lparr>DiscordProtoChannelID = ''77'', DiscordID = ''99''\<rparr>"

definition dm_bridge :: Bridge where
  "dm_bridge =
     Bridge (\<lambda>_. None) (\<lambda>_. Some dm_portal) (\<lambda>_ _. Some dm_message) (\<lambda>_. ([], False)) (\<lambda>_. None)"

text \<open>
  A bridge whose directory answers every alias without error and with an empty room id
  (a response in which \<open>room_id\<close> is missing decodes to that), and a user of it.
\<close>

definition empty_alias_bridge :: Bridge where
  "empty_alias_bridge =
     Bridge (\<lambda>_. Some []) (\<lambda>_. None) (\<lambda>_ _. None) (\<lambda>_. ([], False)) (\<lambda>_. None)"

definition empty_alias_user :: User where
  "empty_alias_user = User ''1234'' empty_alias_bridge"

section \<open>Facts about decoding\<close>

lemma byte_eq_iff: "(byte x = byte y) = (x = y)"
  by (simp add: byte_def)

lemma rune_at_ascii: "byte c < 128 \<Longrightarrow> rune_at (c # cs) = byte c"
  by (simp add: rune_at_def Let_def)

lemma width_at_ascii: "byte c < 128 \<Longrightarrow> width_at (c # cs) = 1"
  by (simp add: width_at_def Let_def)

lemma mod_32_lead2: "194 \<le> (b::nat) \<Longrightarrow> b < 224 \<Longrightarrow> 2 \<le> b mod 32"
  by (simp add: le_mod_geq)

lemma mod_16_lead3: "225 \<le> (b::nat) \<Longrightarrow> b < 240 \<Longrightarrow> 1 \<le> b mod 16"
  by (simp add: le_mod_geq)

lemma mod_8_lead4: "241 \<le> (b::nat) \<Longrightarrow> b < 245 \<Longrightarrow> 1 \<le> b mod 8"
  by (simp add: le_mod_geq)

lemma mod_64_from_A0: "160 \<le> (b::nat) \<Longrightarrow> b \<le> 191 \<Longrightarrow> 32 \<le> b mod 64"
  by (simp add: le_mod_geq)

lemma mod_64_from_90: "144 \<le> (b::nat) \<Longrightarrow> b \<le> 191 \<Longrightarrow> 16 \<le> b mod 64"
  by (simp add: le_mod_geq)

lemma decode2_ge: "194 \<le> b0 \<Longrightarrow> b0 < 224 \<Longrightarrow> 128 \<le> fst (decode2 b0 cs)"
  using mod_32_lead2[of b0] by (simp add: decode2_def RuneError_def split: list.splits)

lemma decode3_ge: "225 \<le> b0 \<Longrightarrow> b0 < 240 \<Longrightarrow> 128 \<le> fst (decode3 lo hi b0 cs)"
  using mod_16_lead3[of b0] by (simp add: decode3_def RuneError_def split: list.splits)

lemma decode3_ge0: "128 \<le> fst (decode3 160 191 b0 cs)"
proof (cases cs)
  case Nil
  then show ?thesis by (simp add: decode3_def RuneError_def)
next
  case (Cons c1 cs1)
  then show ?thesis using mod_64_from_A0[of "byte c1"]
    by (auto simp: decode3_def RuneError_def is_cont_def split: list.splits)
qed

lemma decode4_ge: "241 \<le> b0 \<Longrightarrow> b0 < 245 \<Longrightarrow> 128 \<le> fst (decode4 lo hi b0 cs)"
  using mod_8_lead4[of b0] by (simp add: decode4_def RuneError_def split: list.splits)

lemma decode4_ge0: "128 \<le> fst (decode4 144 191 b0 cs)"
proof (cases cs)
  case Nil
  then show ?thesis by (simp add: decode4_def RuneError_def)
next
  case (Cons c1 cs1)
  then show ?thesis using mod_64_from_90[of "byte c1"]
    by (auto simp: decode4_def RuneError_def is_cont_def split: list.splits)
qed

lemma rune_at_nonascii: "\<not> byte c < 128 \<Longrightarrow> 128 \<le> rune_at (c # cs)"
  using decode2_ge[of "byte c" cs] decode3_ge[of "byte c" 128 191 cs]
        decode3_ge[of 237 128 159 cs] decode3_ge0[of 224 cs]
        decode4_ge[of "byte c" 128 191 cs] decode4_ge[of 244 128 143 cs] decode4_ge0[of 240 cs]
  by (simp add: rune_at_def Let_def RuneError_def)

lemma width_cont_bytes:
  "width_at (c # cs) = Suc k \<Longrightarrow> x \<in> set (take k cs) \<Longrightarrow> 128 \<le> byte x \<and> byte x < 192"
  by (auto simp: width_at_def decode2_def decode3_def decode4_def is_cont_def Let_def
           split: list.splits if_splits)

lemma width_of_cont: "128 \<le> byte x \<Longrightarrow> byte x < 192 \<Longrightarrow> width_at (x # xs) = 1"
  by (simp add: width_at_def Let_def)

lemma rune_ascii_iff: "r < 128 \<Longrightarrow> (rune_at (x # xs) = r) = (byte x = r)"
  using rune_at_ascii[of x xs] rune_at_nonascii[of x xs] by (cases "byte x < 128") auto

lemma backtrack_Lit:
  "byte ch < 128 \<Longrightarrow>
   backtrack (Lit ch) (s, c) = (case s of [] \<Rightarrow> [] | x # xs \<Rightarrow> if x = ch then [(xs, c)] else [])"
  using rune_ascii_iff[of "byte ch"] width_at_ascii
  by (auto simp: Lit_def byte_eq_iff split: list.splits)

section \<open>The loops of the regexp package, read byte by byte\<close>

lemma find1_skip:
  "\<forall>k < j. match_here re (drop k xs) = None \<Longrightarrow> j \<le> length xs \<Longrightarrow>
   find1 re xs = (case find1 re (drop j xs) of Some (a, n, c) \<Rightarrow> Some (j + a, n, c) | None \<Rightarrow> None)"
proof (induction j arbitrary: xs)
  case 0
  then show ?case by (simp split: option.splits)
next
  case (Suc j)
  from Suc.prems(2) obtain x xs' where xs: "xs = x # xs'" by (cases xs) auto
  from Suc.prems(1) have none: "match_here re xs = None" by force
  have "\<forall>k<j. match_here re (drop k xs') = None"
  proof (intro allI impI)
    fix k assume "k < j"
    then have "Suc k < Suc j" by simp
    with Suc.prems(1) have "match_here re (drop (Suc k) xs) = None" by blast
    then show "match_here re (drop k xs') = None" by (simp add: xs)
  qed
  moreover from Suc.prems(2) xs have "j \<le> length xs'" by simp
  ultimately have "find1 re xs' =
      (case find1 re (drop j xs') of Some (a, n, c) \<Rightarrow> Some (j + a, n, c) | None \<Rightarrow> None)"
    by (rule Suc.IH)
  with none show ?case by (simp add: xs split: option.splits)
qed

lemma no_match_cont:
  assumes "ascii_start re" and "width_at (x # xs) = Suc w" and "k < w"
  shows "match_here re (drop k xs) = None"
proof (rule ccontr)
  assume "match_here re (drop k xs) \<noteq> None"
  then obtain n c where "match_here re (drop k xs) = Some (n, c)" by auto
  with assms(1) have "drop k xs \<noteq> [] \<and> byte (hd (drop k xs)) < 128 \<and> 0 < n"
    unfolding ascii_start_def by blast
  then have ne: "drop k xs \<noteq> []" and lt: "byte (hd (drop k xs)) < 128" by simp_all
  from ne have k: "k < length xs" by simp
  then have hd: "hd (drop k xs) = xs ! k" by (simp add: hd_drop_conv_nth)
  from k assms(3) have "xs ! k \<in> set (take w xs)"
    by (metis in_set_conv_nth length_take min_less_iff_conj nth_take)
  from width_cont_bytes[OF assms(2) this] lt hd show False by simp
qed

lemma doExecute_find1:
  "ascii_start re \<Longrightarrow> pos \<le> length s \<Longrightarrow>
         doExecute re s pos =
           (case find1 re (drop pos s) of
              Some (a, n, c) \<Rightarrow> Some (pos + a, pos + a + n, c)
            | None \<Rightarrow> None)"
proof (induction re s pos rule: doExecute.induct)
  case (1 re s pos)
  show ?case
  proof (cases "match_here re (drop pos s)")
    case (Some nc)
    then show ?thesis
      by (cases "drop pos s") (auto simp: doExecute.simps[of re s pos] split: prod.splits)
  next
    case None
    show ?thesis
    proof (cases "length s \<le> pos")
      case True
      with None show ?thesis by (simp add: doExecute.simps[of re s pos])
    next
      case False
      then obtain x xs where dr: "drop pos s = x # xs" by (cases "drop pos s") auto
      have "0 < width_at (x # xs)" by (rule width_at_pos) simp
      then obtain w where w: "width_at (x # xs) = Suc w" by (cases "width_at (x # xs)") auto
      have len: "length s = pos + Suc (length xs)"
        using arg_cong[OF dr, of length] False by simp
      have "width_at (drop pos s) \<le> length (drop pos s)" by (rule width_at_le)
      with len dr w have le: "pos + width_at (drop pos s) \<le> length s" and wl: "w \<le> length xs"
        by simp_all
      have IH: "doExecute re s (pos + width_at (drop pos s)) =
           (case find1 re (drop (pos + width_at (drop pos s)) s) of
              Some (a, n, c) \<Rightarrow> Some (pos + width_at (drop pos s) + a, pos + width_at (drop pos s) + a + n, c)
            | None \<Rightarrow> None)"
        using "1.IH"[OF None False "1.prems"(1) le] by simp
      have dd: "drop (pos + width_at (drop pos s)) s = drop w xs"
      proof -
        have "drop (pos + width_at (drop pos s)) s = drop (width_at (drop pos s)) (drop pos s)"
          by (simp add: add.commute)
        then show ?thesis by (simp add: dr w)
      qed
      have "\<forall>k<w. match_here re (drop k xs) = None"
        by (intro allI impI) (rule no_match_cont[OF "1.prems"(1) w])
      from find1_skip[OF this wl]
      have f: "find1 re xs = (case find1 re (drop w xs) of Some (a, n, c) \<Rightarrow> Some (w + a, n, c) | None \<Rightarrow> None)" .
      have "doExecute re s pos = doExecute re s (pos + width_at (drop pos s))"
        using None False by (simp add: doExecute.simps[of re s pos])
      then show ?thesis using IH dd f None dr w
        by (simp split: option.splits)
    qed
  qed
qed

lemma find1_SomeD:
  "find1 re t = Some (a, n, c) \<Longrightarrow>
   a \<le> length t \<and> match_here re (drop a t) = Some (n, c) \<and> (\<forall>k<a. match_here re (drop k t) = None)"
proof (induction t arbitrary: a)
  case Nil
  then show ?case by (auto split: option.splits)
next
  case (Cons x xs)
  show ?case
  proof (cases "match_here re (x # xs)")
    case (Some nc)
    with Cons.prems show ?thesis by (auto split: prod.splits)
  next
    case None
    with Cons.prems obtain a' where a': "find1 re xs = Some (a', n, c)" "a = Suc a'"
      by (auto split: option.splits)
    from Cons.IH[OF a'(1)] None a'(2) show ?thesis
      by (auto simp: less_Suc_eq_0_disj)
  qed
qed

lemma replace_spec_none: "find1 re t = None \<Longrightarrow> replace_spec re g t = Inr t"
proof (induction t)
  case Nil
  then show ?case by (simp add: replace_spec.simps[of re g "[]"] split: option.splits)
next
  case (Cons x xs)
  then show ?case
    by (simp add: replace_spec.simps[of re g "x # xs"] split: option.splits prod.splits)
qed

lemma replace_spec_some:
  "ascii_start re \<Longrightarrow> find1 re t = Some (a, n, c) \<Longrightarrow>
   replace_spec re g t =
     (case g (take n (drop a t)) c of
        Inl e \<Rightarrow> Inl e
      | Inr new \<Rightarrow>
          (case replace_spec re g (drop (a + n) t) of
             Inl e \<Rightarrow> Inl e
           | Inr out \<Rightarrow> Inr (take a t @ new @ out)))"
proof (induction t arbitrary: a)
  case Nil
  then have "match_here re [] = Some (n, c)" by (auto split: option.splits)
  with Nil.prems(1) show ?case unfolding ascii_start_def by blast
next
  case (Cons x xs)
  show ?case
  proof (cases "match_here re (x # xs)")
    case (Some nc)
    with Cons.prems(2) have a: "a = 0" and nc: "nc = (n, c)" by (auto split: prod.splits)
    from Some nc Cons.prems(1) have "0 < n" unfolding ascii_start_def by blast
    with Some nc show ?thesis unfolding a
      by (simp add: replace_spec.simps[of re g "x # xs"] split: sum.splits)
  next
    case None
    with Cons.prems(2) obtain a' where a': "find1 re xs = Some (a', n, c)" "a = Suc a'"
      by (auto split: option.splits)
    from Cons.IH[OF Cons.prems(1) a'(1)] None a'(2) show ?thesis
      by (simp add: replace_spec.simps[of re g "x # xs"] split: sum.splits)
  qed
qed

lemma find1_width:
  assumes "ascii_start re" and "find1 re t = Some (a, n, c)"
  shows "width_at t \<le> a + n \<and> 0 < n"
proof -
  from find1_SomeD[OF assms(2)]
  have a: "a \<le> length t" and m: "match_here re (drop a t) = Some (n, c)" by simp_all
  from assms(1) m have ne: "drop a t \<noteq> []" and asc: "byte (hd (drop a t)) < 128" and n: "0 < n"
    unfolding ascii_start_def by blast+
  show ?thesis
  proof (cases a)
    case 0
    with ne obtain x xs where t: "t = x # xs" by (cases t) auto
    with 0 asc have "width_at t = 1" by (simp add: width_at_ascii)
    with n show ?thesis by simp
  next
    case (Suc a')
    with ne obtain x xs where t: "t = x # xs" by (cases t) auto
    have "0 < width_at (x # xs)" by (rule width_at_pos) simp
    then obtain w where w: "width_at (x # xs) = Suc w" by (cases "width_at (x # xs)") auto
    have "\<not> a' < w"
    proof
      assume "a' < w"
      from no_match_cont[OF assms(1) w this] m Suc t show False by simp
    qed
    with w t Suc n show ?thesis by simp
  qed
qed

lemma replaceAll_spec:
  assumes re: "ascii_start re"
    and repl: "\<And>a0 a1 c. repl (a0, a1, c) = g (take (a1 - a0) (drop a0 src)) c"
  shows "pos \<le> length src \<Longrightarrow>
         replaceAll re src repl pos pos buf =
           (case replace_spec re g (drop pos src) of
              Inl e \<Rightarrow> Inl e
            | Inr out \<Rightarrow> Inr (buf @ out))"
proof (induction "length src - pos" arbitrary: pos buf rule: less_induct)
  case less
  let ?t = "drop pos src"
  have ex: "doExecute re src pos =
           (case find1 re ?t of
              Some (a, n, c) \<Rightarrow> Some (pos + a, pos + a + n, c)
            | None \<Rightarrow> None)"
    by (rule doExecute_find1[OF re less.prems])
  show ?case
  proof (cases "find1 re ?t")
    case None
    with ex less.prems show ?thesis
      by (simp add: replaceAll.simps[of re src repl pos pos buf] replace_spec_none)
  next
    case (Some anc)
    obtain a n c where anc: "anc = (a, n, c)" by (cases anc)
    from find1_width[OF re Some[unfolded anc]]
    have w: "width_at ?t \<le> a + n" and n: "0 < n" by simp_all
    from find1_SomeD[OF Some[unfolded anc]] have a: "a \<le> length ?t"
      and m: "match_here re (drop a ?t) = Some (n, c)" by simp_all
    from match_here_le[OF m] a less.prems have le: "pos + a + n \<le> length src" by simp
    have sp: "(if pos + a + n < pos + width_at ?t then pos + width_at ?t
               else if pos + a + n < pos + 1 then pos + 1 else pos + a + n) = pos + a + n"
      using w n by simp
    have r: "repl (pos + a, pos + a + n, c) = g (take n (drop a ?t)) c"
      by (simp add: repl add.commute)
    show ?thesis
    proof (cases "g (take n (drop a ?t)) c")
      case (Inl e)
      with ex Some anc less.prems n r sp show ?thesis
        by (simp add: replaceAll.simps[of re src repl pos pos buf]
                      replace_spec_some[OF re Some[unfolded anc]])
    next
      case (Inr new)
      have lt: "length src - (pos + a + n) < length src - pos" using n le by simp
      have IH: "replaceAll re src repl (pos + a + n) (pos + a + n) (buf @ take a ?t @ new) =
                (case replace_spec re g (drop (pos + a + n) src) of
                   Inl e \<Rightarrow> Inl e
                 | Inr out \<Rightarrow> Inr ((buf @ take a ?t @ new) @ out))"
        by (rule less.hyps[OF lt le])
      have dd: "drop (a + n) ?t = drop (pos + a + n) src" by (simp add: add.commute add.left_commute)
      have "replaceAll re src repl pos pos buf =
            replaceAll re src repl (pos + a + n) (pos + a + n) (buf @ take a ?t @ new)"
        using ex Some anc less.prems n r sp Inr
        by (simp add: replaceAll.simps[of re src repl pos pos buf] Let_def)
      with IH Inr dd show ?thesis
        by (simp add: replace_spec_some[OF re Some[unfolded anc]] split: sum.splits)
    qed
  qed
qed

lemma all_spec_none: "find1 re t = None \<Longrightarrow> all_spec re t = []"
proof (induction t)
  case Nil
  then show ?case by (simp add: all_spec.simps[of re "[]"] split: option.splits)
next
  case (Cons x xs)
  then show ?case
    by (simp add: all_spec.simps[of re "x # xs"] split: option.splits prod.splits)
qed

lemma all_spec_some:
  "ascii_start re \<Longrightarrow> find1 re t = Some (a, n, c) \<Longrightarrow>
   all_spec re t = (a, a + n) # map (\<lambda>(x, y). (a + n + x, a + n + y)) (all_spec re (drop (a + n) t))"
proof (induction t arbitrary: a)
  case Nil
  then have "match_here re [] = Some (n, c)" by (auto split: option.splits)
  with Nil.prems(1) show ?case unfolding ascii_start_def by blast
next
  case (Cons x xs)
  show ?case
  proof (cases "match_here re (x # xs)")
    case (Some nc)
    with Cons.prems(2) have a: "a = 0" and nc: "nc = (n, c)" by (auto split: prod.splits)
    from Some nc Cons.prems(1) have "0 < n" unfolding ascii_start_def by blast
    with Some nc show ?thesis unfolding a
      by (simp add: all_spec.simps[of re "x # xs"])
  next
    case None
    with Cons.prems(2) obtain a' where a': "find1 re xs = Some (a', n, c)" "a = Suc a'"
      by (auto split: option.splits)
    from Cons.IH[OF Cons.prems(1) a'(1)] None a'(2) show ?thesis
      by (simp add: all_spec.simps[of re "x # xs"] case_prod_unfold)
  qed
qed

lemma allMatches_spec:
  assumes re: "ascii_start re"
  shows "pos \<le> length s \<Longrightarrow>
         map (\<lambda>(a, b, c). (a, b)) (allMatches re s pos prev) =
           map (\<lambda>(a, b). (pos + a, pos + b)) (all_spec re (drop pos s))"
proof (induction "length s - pos" arbitrary: pos prev rule: less_induct)
  case less
  let ?t = "drop pos s"
  have ex: "doExecute re s pos =
           (case find1 re ?t of
              Some (a, n, c) \<Rightarrow> Some (pos + a, pos + a + n, c)
            | None \<Rightarrow> None)"
    by (rule doExecute_find1[OF re less.prems])
  show ?case
  proof (cases "find1 re ?t")
    case None
    with ex less.prems show ?thesis
      by (simp add: allMatches.simps[of re s pos prev] all_spec_none)
  next
    case (Some anc)
    obtain a n c where anc: "anc = (a, n, c)" by (cases anc)
    from find1_width[OF re Some[unfolded anc]] have n: "0 < n" by simp
    from find1_SomeD[OF Some[unfolded anc]] have a: "a \<le> length ?t"
      and m: "match_here re (drop a ?t) = Some (n, c)" by simp_all
    from match_here_le[OF m] a less.prems have le: "pos + a + n \<le> length s" by simp
    have lt: "length s - (pos + a + n) < length s - pos" using n le by simp
    have IH: "map (\<lambda>(a, b, c). (a, b)) (allMatches re s (pos + a + n) (int (pos + a + n))) =
              map (\<lambda>(x, y). (pos + a + n + x, pos + a + n + y)) (all_spec re (drop (pos + a + n) s))"
      by (rule less.hyps[OF lt le])
    have dd: "drop (a + n) ?t = drop (pos + a + n) s" by (simp add: add.commute add.left_commute)
    have "allMatches re s pos prev = (pos + a, pos + a + n, c) # allMatches re s (pos + a + n) (int (pos + a + n))"
      using ex Some anc less.prems n
      by (simp add: allMatches.simps[of re s pos prev])
    with IH dd show ?thesis
      by (simp add: all_spec_some[OF re Some[unfolded anc]] case_prod_unfold add.assoc)
  qed
qed

lemma ordered_mono: "ordered lo ms n \<Longrightarrow> lo' \<le> lo \<Longrightarrow> ordered lo' ms n"
  by (cases ms) auto

lemma allMatches_ordered:
  "pos \<le> length s \<Longrightarrow> ordered pos (map (\<lambda>(a, b, c). (a, b)) (allMatches re s pos prev)) (length s)"
proof (induction "length s - pos" arbitrary: pos prev rule: less_induct)
  case less
  show ?case
  proof (cases "doExecute re s pos")
    case None
    with less.prems show ?thesis by (simp add: allMatches.simps[of re s pos prev])
  next
    case (Some abc)
    obtain a b c where abc: "abc = (a, b, c)" by (cases abc)
    from doExecute_bounds[OF Some[unfolded abc] less.prems]
    have bd: "pos \<le> a" "a \<le> b" "b \<le> length s" by simp_all
    show ?thesis
    proof (cases "b = pos")
      case False
      with bd have lt: "length s - b < length s - pos" by simp
      from less.hyps[OF lt bd(3)] Some abc False bd less.prems show ?thesis
        by (simp add: allMatches.simps[of re s pos prev])
    next
      case True
      let ?w = "width_at (drop pos s)"
      let ?pos' = "if 0 < ?w then pos + ?w else length s + 1"
      have rest: "ordered b (map (\<lambda>(a, b, c). (a, b)) (allMatches re s ?pos' (int b))) (length s)"
      proof (cases "?pos' \<le> length s")
        case le: True
        then have w: "0 < ?w" by (auto split: if_splits)
        with le less.prems have lt: "length s - ?pos' < length s - pos" by simp
        from less.hyps[OF lt le] have "ordered ?pos' (map (\<lambda>(a, b, c). (a, b)) (allMatches re s ?pos' (int b))) (length s)" .
        then show ?thesis by (rule ordered_mono) (use True w in simp)
      next
        case False
        then have "allMatches re s ?pos' (int b) = []"
          by (simp add: allMatches.simps[of re s ?pos'])
        with bd show ?thesis by simp
      qed
      show ?thesis
      proof (cases "int a = prev")
        case eq: True
        from rest bd True have "ordered pos (map (\<lambda>(a, b, c). (a, b)) (allMatches re s ?pos' (int b))) (length s)"
          by simp
        with Some abc True eq less.prems show ?thesis
          by (simp add: allMatches.simps[of re s pos prev] Let_def)
      next
        case ne: False
        with rest Some abc True bd less.prems show ?thesis
          by (simp add: allMatches.simps[of re s pos prev] Let_def)
      qed
    qed
  qed
qed

section \<open>The escape fixer, read byte by byte\<close>

lemma byte_backslash: "byte backslash = 92"
  by (simp add: byte_def backslash_def)

lemma backtrack_Cls_ne:
  "byte ch < 128 \<Longrightarrow>
   backtrack (Cls (\<lambda>r. r \<noteq> byte ch)) (s, c) =
     (case s of [] \<Rightarrow> [] | x # xs \<Rightarrow> if x \<noteq> ch then [(drop (width_at (x # xs)) (x # xs), c)] else [])"
  using rune_ascii_iff[of "byte ch"]
  by (auto simp: byte_eq_iff split: list.splits)

lemma match_here_escapeFixer:
  "match_here escapeFixer s =
     (case fixer_len s of
        Some n \<Rightarrow> Some (n, [(1, take (n - 1) (drop 1 s))])
      | None \<Rightarrow> None)"
proof -
  have b: "byte backslash < 128" "byte CHR ''_'' < 128" "byte CHR ''*'' < 128"
    by (simp_all add: byte_def backslash_def)
  consider "s = []" | x where "s = [x]" | x y where "s = [x, y]" | x y z where "s = [x, y, z]"
    | x y z u r where "s = x # y # z # u # r"
    by (metis list.exhaust)
  then show ?thesis
  proof cases
    case 5
    have w: "width_at (u # r) \<le> Suc (length r)" using width_at_le[of "u # r"] by simp
    show ?thesis using w
      by (simp del: backtrack.simps(1) add: 5 match_here_def escapeFixer_def backtrack_Lit[OF b(1)] backtrack_Lit[OF b(2)]
          backtrack_Lit[OF b(3)] backtrack_Cls_ne[OF b(2)] backtrack_Cls_ne[OF b(3)])
  qed (simp_all del: backtrack.simps(1) add: match_here_def escapeFixer_def backtrack_Lit[OF b(1)] backtrack_Lit[OF b(2)]
          backtrack_Lit[OF b(3)] backtrack_Cls_ne[OF b(2)] backtrack_Cls_ne[OF b(3)])
qed

lemma fixer_len_SomeD:
  "fixer_len s = Some n \<Longrightarrow>
   \<exists>d x rest. s = backslash # d # d # x # rest \<and> (d = CHR ''_'' \<or> d = CHR ''*'') \<and> x \<noteq> d
      \<and> n = 3 + width_at (x # rest)"
  by (induction s rule: fixer_len.induct) (auto split: if_splits)

lemma ascii_start_escapeFixer: "ascii_start escapeFixer"
  unfolding ascii_start_def
proof (intro allI impI)
  fix s n c
  assume "match_here escapeFixer s = Some (n, c)"
  then have "fixer_len s = Some n"
    by (simp add: match_here_escapeFixer split: option.splits)
  from fixer_len_SomeD[OF this] show "s \<noteq> [] \<and> byte (hd s) < 128 \<and> 0 < n"
    by (auto simp: byte_backslash)
qed

lemma fix_spec_other: "x \<noteq> backslash \<Longrightarrow> fix_spec (x # xs) = x # fix_spec xs"
  by (induction "x # xs" rule: fix_spec.induct) auto

lemma fix_spec_none: "fixer_len (x # xs) = None \<Longrightarrow> fix_spec (x # xs) = x # fix_spec xs"
  by (induction "x # xs" rule: fix_spec.induct) (auto split: if_splits)

lemma fix_spec_copy: "\<forall>x\<in>set u. x \<noteq> backslash \<Longrightarrow> fix_spec (u @ t) = u @ fix_spec t"
  by (induction u) (simp_all add: fix_spec_other)

lemma cont_not_backslash:
  assumes "width_at (x # xs) = Suc k"
  shows "\<forall>y\<in>set (take k xs). y \<noteq> backslash"
proof
  fix y assume "y \<in> set (take k xs)"
  from width_cont_bytes[OF assms this] show "y \<noteq> backslash"
    by (auto simp: byte_backslash)
qed

lemma fix_spec_rune: "x # fix_spec rest = take (width_at (x # rest)) (x # rest) @ fix_spec (drop (width_at (x # rest)) (x # rest))"
proof -
  have "0 < width_at (x # rest)" by (rule width_at_pos) simp
  then obtain k where k: "width_at (x # rest) = Suc k" by (cases "width_at (x # rest)") auto
  have "fix_spec (take k rest @ drop k rest) = take k rest @ fix_spec (drop k rest)"
    by (rule fix_spec_copy[OF cont_not_backslash[OF k]])
  then show ?thesis by (simp add: k)
qed

lemma escapeFixer_repl_ok:
  "2 \<le> length m \<Longrightarrow> escapeFixer_repl m = Inr (take 2 m @ [backslash] @ drop 2 m)"
  by (simp add: escapeFixer_repl_def slice_to_def slice_from_def slice_def)

lemma replace_spec_escapeFixer:
  "replace_spec escapeFixer (\<lambda>m c. escapeFixer_repl m) s = Inr (fix_spec s)"
proof (induction "length s" arbitrary: s rule: less_induct)
  case less
  show ?case
  proof (cases "fixer_len s")
    case None
    show ?thesis
    proof (cases s)
      case Nil
      then show ?thesis
        by (simp add: replace_spec.simps[of _ _ "[]"] match_here_escapeFixer)
    next
      case (Cons x xs)
      with less[of xs] None show ?thesis
        by (simp add: replace_spec.simps[of _ _ "x # xs"] match_here_escapeFixer fix_spec_none)
    qed
  next
    case (Some n)
    from fixer_len_SomeD[OF Some] obtain d x rest where
      s: "s = backslash # d # d # x # rest" and d: "d = CHR ''_'' \<or> d = CHR ''*''" and x: "x \<noteq> d"
      and n: "n = 3 + width_at (x # rest)" by blast
    let ?w = "width_at (x # rest)"
    have wl: "?w \<le> Suc (length rest)" using width_at_le[of "x # rest"] by simp
    have wp: "0 < ?w" by (rule width_at_pos) simp
    have n0: "0 < n" by (simp add: n)
    have tk: "take n s = backslash # d # d # take ?w (x # rest)"
      by (simp add: s n numeral_3_eq_3)
    have dr: "drop n s = drop ?w (x # rest)" by (simp add: s n numeral_3_eq_3)
    have "length (drop n s) < length s" using wp by (simp add: s n)
    from less[OF this] have IH: "replace_spec escapeFixer (\<lambda>m c. escapeFixer_repl m) (drop n s) = Inr (fix_spec (drop n s))" .
    have g: "escapeFixer_repl (take n s) = Inr ([backslash, d, backslash, d] @ take ?w (x # rest))"
      by (simp add: tk escapeFixer_repl_ok)
    have "replace_spec escapeFixer (\<lambda>m c. escapeFixer_repl m) s
            = Inr ([backslash, d, backslash, d] @ take ?w (x # rest) @ fix_spec (drop ?w (x # rest)))"
      using Some IH g n0
      by (simp add: replace_spec.simps[of _ _ s] match_here_escapeFixer dr)
    also have "\<dots> = Inr (fix_spec s)"
      using d x fix_spec_rune[of x rest] by (simp add: s)
    finally show ?thesis .
  qed
qed

lemma fixEscapes_fix_spec: "fixEscapes text = Inr (fix_spec text)"
proof -
  have "fixEscapes text =
          (case replace_spec escapeFixer (\<lambda>m c. escapeFixer_repl m) (drop 0 text) of
             Inl e \<Rightarrow> Inl e
           | Inr out \<Rightarrow> Inr ([] @ out))"
    unfolding fixEscapes_def ReplaceAllStringFunc_def
    by (rule replaceAll_spec[OF ascii_start_escapeFixer]) simp_all
  then show ?thesis by (simp add: replace_spec_escapeFixer)
qed

subsection \<open>When the escape fixer is idempotent\<close>

lemma fixer_len_other: "b \<noteq> backslash \<Longrightarrow> fixer_len (b # t) = None"
  by (induction "b # t" rule: fixer_len.induct) auto

lemma fixer_len_nodelim: "d1 \<noteq> CHR ''_'' \<Longrightarrow> d1 \<noteq> CHR ''*'' \<Longrightarrow> fixer_len (b # d1 # t) = None"
  by (induction "b # d1 # t" rule: fixer_len.induct) auto

lemma fixer_len_differ: "d1 \<noteq> d2 \<Longrightarrow> fixer_len (b # d1 # d2 # t) = None"
  by (induction "b # d1 # d2 # t" rule: fixer_len.induct) auto

lemma backslash_not_delim: "backslash \<noteq> CHR ''_''" "backslash \<noteq> CHR ''*''"
  by (simp_all add: backslash_def)

lemma fix_spec_hd: "\<exists>v. fix_spec (c # u) = c # v"
  by (induction "c # u" rule: fix_spec.induct) auto

lemma fixer_len_None_iff:
  "(fixer_len (b # d1 # d2 # x # r) = None) =
   (\<not> (b = backslash \<and> d1 = d2 \<and> (d1 = CHR ''_'' \<or> d1 = CHR ''*'') \<and> x \<noteq> d1))"
  by auto

lemma fix_spec_keeps_none: "fixer_len (x # t) = None \<Longrightarrow> fixer_len (x # fix_spec t) = None"
proof (cases "x = backslash")
  case False
  then show ?thesis by (simp add: fixer_len_other)
next
  case True
  assume none: "fixer_len (x # t) = None"
  consider "t = []" | a where "t = [a]" | a b where "t = [a, b]" | a b c r where "t = a # b # c # r"
    by (metis list.exhaust)
  then show ?thesis
  proof cases
    case 4
    obtain v where v: "fix_spec (c # r) = c # v" using fix_spec_hd by blast
    show ?thesis
    proof (cases "a = backslash")
      case a: True
      then have "\<exists>w. fix_spec t = backslash # w" using fix_spec_hd[of a "b # c # r"] 4 by simp
      then show ?thesis using backslash_not_delim by (auto simp: fixer_len_nodelim)
    next
      case a: False
      then have t1: "fix_spec t = a # fix_spec (b # c # r)" by (simp add: 4 fix_spec_other)
      show ?thesis
      proof (cases "b = backslash")
        case True
        then have "\<exists>w. fix_spec (b # c # r) = backslash # w" using fix_spec_hd[of b "c # r"] by simp
        with t1 a True show ?thesis by (auto simp: fixer_len_differ)
      next
        case False
        then have "fix_spec t = a # b # c # v" by (simp add: t1 fix_spec_other v)
        with none 4 show ?thesis by (simp del: fixer_len.simps add: fixer_len_None_iff)
      qed
    qed
  qed (use none in simp_all)
qed

lemma fix_spec_idem: "no_overlap s \<Longrightarrow> fix_spec (fix_spec s) = fix_spec s"
proof (induction s rule: fix_spec.induct)
  case (1 b d1 d2 x rest)
  show ?case
  proof (cases "b = backslash \<and> d1 = d2 \<and> (d1 = CHR ''_'' \<or> d1 = CHR ''*'') \<and> x \<noteq> d1")
    case True
    with "1.prems" have nx: "fixer_len (x # rest) = None" and no: "no_overlap rest" by auto
    from "1.IH"(1)[OF True no] have IH: "fix_spec (fix_spec rest) = fix_spec rest" .
    from True have d: "d1 \<noteq> backslash" using backslash_not_delim by auto
    have a: "fix_spec (x # fix_spec rest) = x # fix_spec rest"
      using fix_spec_none[OF fix_spec_keeps_none[OF nx]] IH by simp
    from True have dx: "d1 \<noteq> x" by auto
    have b: "fix_spec (backslash # d1 # x # fix_spec rest) = backslash # d1 # x # fix_spec rest"
    proof -
      have "fixer_len (backslash # d1 # x # fix_spec rest) = None"
        by (rule fixer_len_differ[OF dx])
      from fix_spec_none[OF this]
      have "fix_spec (backslash # d1 # x # fix_spec rest)
              = backslash # fix_spec (d1 # x # fix_spec rest)" .
      also have "fix_spec (d1 # x # fix_spec rest) = d1 # fix_spec (x # fix_spec rest)"
        by (rule fix_spec_other[OF d])
      finally show ?thesis using a by simp
    qed
    have c: "fix_spec (backslash # d1 # backslash # d1 # x # fix_spec rest)
            = backslash # d1 # backslash # d1 # x # fix_spec rest"
    proof -
      have "fixer_len (backslash # d1 # backslash # d1 # x # fix_spec rest) = None"
        by (rule fixer_len_differ[OF d])
      from fix_spec_none[OF this]
      have "fix_spec (backslash # d1 # backslash # d1 # x # fix_spec rest)
              = backslash # fix_spec (d1 # backslash # d1 # x # fix_spec rest)" .
      also have "fix_spec (d1 # backslash # d1 # x # fix_spec rest)
                   = d1 # fix_spec (backslash # d1 # x # fix_spec rest)"
        by (rule fix_spec_other[OF d])
      finally show ?thesis using b by simp
    qed
    from True have "fix_spec (b # d1 # d2 # x # rest) = backslash # d1 # backslash # d1 # x # fix_spec rest"
      by auto
    with c show ?thesis by simp
  next
    case False
    with "1.prems" have no: "no_overlap (d1 # d2 # x # rest)" by auto
    from "1.IH"(2)[OF False no] have IH: "fix_spec (fix_spec (d1 # d2 # x # rest)) = fix_spec (d1 # d2 # x # rest)" .
    from False have none: "fixer_len (b # d1 # d2 # x # rest) = None" by auto
    have f: "fix_spec (b # d1 # d2 # x # rest) = b # fix_spec (d1 # d2 # x # rest)"
      using False by auto
    show ?thesis unfolding f
      using fix_spec_none[OF fix_spec_keeps_none[OF none]] IH by simp
  qed
qed simp_all

lemma fix_spec_length: "length s \<le> length (fix_spec s)"
  by (induction s rule: fix_spec.induct) auto

lemma fixer_len_short: "length s < 4 \<Longrightarrow> fixer_len s = None"
  by (cases s rule: fixer_len.cases) auto

lemma fix_spec_grows: "fixer_len (drop k s) \<noteq> None \<Longrightarrow> length s < length (fix_spec s)"
proof (induction s arbitrary: k rule: fix_spec.induct)
  case (1 b d1 d2 x rest)
  show ?case
  proof (cases "b = backslash \<and> d1 = d2 \<and> (d1 = CHR ''_'' \<or> d1 = CHR ''*'') \<and> x \<noteq> d1")
    case True
    then show ?thesis using fix_spec_length[of rest] by auto
  next
    case False
    then have "fixer_len (b # d1 # d2 # x # rest) = None" by auto
    with "1.prems" obtain k' where "k = Suc k'" by (cases k) auto
    with "1.prems" have "fixer_len (drop k' (d1 # d2 # x # rest)) \<noteq> None" by simp
    from "1.IH"(2)[OF False this] False show ?thesis by auto
  qed
qed (simp_all add: fixer_len_short)

lemma fix_spec_keeps_some:
  assumes "fixer_len (x # t) \<noteq> None"
  shows "fixer_len (x # fix_spec t) \<noteq> None"
proof -
  from assms obtain n where "fixer_len (x # t) = Some n" by auto
  from fixer_len_SomeD[OF this] obtain d y r where
    t: "x = backslash" "t = d # d # y # r" and d: "d = CHR ''_'' \<or> d = CHR ''*''" and y: "y \<noteq> d"
    by auto
  from d have nb: "d \<noteq> backslash" using backslash_not_delim by auto
  obtain v where v: "fix_spec (y # r) = y # v" using fix_spec_hd by blast
  have "fix_spec t = d # d # y # v" by (simp add: t fix_spec_other[OF nb] v del: fix_spec.simps)
  with t d y show ?thesis by auto
qed

lemma fix_spec_survivor: "\<not> no_overlap s \<Longrightarrow> \<exists>k. fixer_len (drop k (fix_spec s)) \<noteq> None"
proof (induction s rule: fix_spec.induct)
  case (1 b d1 d2 x rest)
  show ?case
  proof (cases "b = backslash \<and> d1 = d2 \<and> (d1 = CHR ''_'' \<or> d1 = CHR ''*'') \<and> x \<noteq> d1")
    case True
    then have f: "fix_spec (b # d1 # d2 # x # rest) = [b, d1, backslash, d2] @ x # fix_spec rest"
      by auto
    from True "1.prems" consider "fixer_len (x # rest) \<noteq> None" | "\<not> no_overlap rest" by auto
    then show ?thesis
    proof cases
      case 1
      from fix_spec_keeps_some[OF this]
      have "fixer_len (drop 4 (fix_spec (b # d1 # d2 # x # rest))) \<noteq> None"
        unfolding f by simp
      then show ?thesis by blast
    next
      case 2
      from "1.IH"(1)[OF True this] obtain k where "fixer_len (drop k (fix_spec rest)) \<noteq> None" by blast
      then have "fixer_len (drop (Suc (Suc (Suc (Suc (Suc k))))) (fix_spec (b # d1 # d2 # x # rest))) \<noteq> None"
        unfolding f by simp
      then show ?thesis by blast
    qed
  next
    case False
    with "1.prems" have "\<not> no_overlap (d1 # d2 # x # rest)" by auto
    from "1.IH"(2)[OF False this] obtain k where
      k: "fixer_len (drop k (fix_spec (d1 # d2 # x # rest))) \<noteq> None" by blast
    from False have "fix_spec (b # d1 # d2 # x # rest) = b # fix_spec (d1 # d2 # x # rest)" by auto
    with k have "fixer_len (drop (Suc k) (fix_spec (b # d1 # d2 # x # rest))) \<noteq> None" by simp
    then show ?thesis by blast
  qed
qed simp_all

lemma fix_spec_not_idem: "\<not> no_overlap s \<Longrightarrow> fix_spec (fix_spec s) \<noteq> fix_spec s"
proof -
  assume "\<not> no_overlap s"
  from fix_spec_survivor[OF this] obtain k where "fixer_len (drop k (fix_spec s)) \<noteq> None" by blast
  from fix_spec_grows[OF this] show ?thesis by auto
qed

section \<open>The unescaper, read byte by byte\<close>

lemma match_here_unscaper:
  "match_here discordMarkdownUnscaper s =
     (case unesc_len s of
        Some n \<Rightarrow> Some (n, [(1, take (n - 1) (drop 1 s))])
      | None \<Rightarrow> None)"
proof -
  have b: "byte backslash < 128" "byte (CHR 0x0A) < 128"
    by (simp_all add: byte_def backslash_def)
  have lf: "(\<lambda>r. r \<noteq> 10) = (\<lambda>r. r \<noteq> byte (CHR 0x0A))" by (simp add: byte_def)
  consider "s = []" | x where "s = [x]" | x y r where "s = x # y # r"
    by (cases s rule: unesc_len.cases) auto
  then show ?thesis
  proof cases
    case 3
    have w: "width_at (y # r) \<le> Suc (length r)" using width_at_le[of "y # r"] by simp
    show ?thesis using w
      by (simp del: backtrack.simps(1) add: 3 match_here_def discordMarkdownUnscaper_def lf
            backtrack_Lit[OF b(1)] backtrack_Cls_ne[OF b(2)])
  qed (simp_all del: backtrack.simps(1) add: match_here_def discordMarkdownUnscaper_def lf
            backtrack_Lit[OF b(1)] backtrack_Cls_ne[OF b(2)])
qed

lemma unesc_len_SomeD:
  "unesc_len s = Some n \<Longrightarrow>
   \<exists>x rest. s = backslash # x # rest \<and> x \<noteq> CHR 0x0A \<and> n = 1 + width_at (x # rest)"
  by (induction s rule: unesc_len.induct) (auto split: if_splits)

lemma ascii_start_unscaper: "ascii_start discordMarkdownUnscaper"
  unfolding ascii_start_def
proof (intro allI impI)
  fix s n c
  assume "match_here discordMarkdownUnscaper s = Some (n, c)"
  then have "unesc_len s = Some n"
    by (simp add: match_here_unscaper split: option.splits)
  from unesc_len_SomeD[OF this] show "s \<noteq> [] \<and> byte (hd s) < 128 \<and> 0 < n"
    by (auto simp: byte_backslash)
qed

lemma unescape_spec_other: "x \<noteq> backslash \<Longrightarrow> unescape_spec (x # xs) = x # unescape_spec xs"
  by (cases xs) auto

lemma unescape_spec_none: "unesc_len (x # xs) = None \<Longrightarrow> unescape_spec (x # xs) = x # unescape_spec xs"
  by (cases xs) (auto split: if_splits)

lemma unescape_spec_copy:
  "\<forall>x\<in>set u. x \<noteq> backslash \<Longrightarrow> unescape_spec (u @ t) = u @ unescape_spec t"
  by (induction u) (simp_all add: unescape_spec_other)

lemma unescape_spec_rune:
  "x # unescape_spec rest =
   take (width_at (x # rest)) (x # rest) @ unescape_spec (drop (width_at (x # rest)) (x # rest))"
proof -
  have "0 < width_at (x # rest)" by (rule width_at_pos) simp
  then obtain k where k: "width_at (x # rest) = Suc k" by (cases "width_at (x # rest)") auto
  have "unescape_spec (take k rest @ drop k rest) = take k rest @ unescape_spec (drop k rest)"
    by (rule unescape_spec_copy[OF cont_not_backslash[OF k]])
  then show ?thesis by (simp add: k)
qed

lemma replace_spec_unscaper:
  "replace_spec discordMarkdownUnscaper (\<lambda>m c. Inr (expand_group1 c)) s = Inr (unescape_spec s)"
proof (induction "length s" arbitrary: s rule: less_induct)
  case less
  show ?case
  proof (cases "unesc_len s")
    case None
    show ?thesis
    proof (cases s)
      case Nil
      then show ?thesis
        by (simp add: replace_spec.simps[of _ _ "[]"] match_here_unscaper)
    next
      case (Cons x xs)
      with less[of xs] None show ?thesis
        by (simp add: replace_spec.simps[of _ _ "x # xs"] match_here_unscaper unescape_spec_none)
    qed
  next
    case (Some n)
    from unesc_len_SomeD[OF Some] obtain x rest where
      s: "s = backslash # x # rest" and x: "x \<noteq> CHR 0x0A"
      and n: "n = 1 + width_at (x # rest)" by blast
    let ?w = "width_at (x # rest)"
    have wl: "?w \<le> Suc (length rest)" using width_at_le[of "x # rest"] by simp
    have wp: "0 < ?w" by (rule width_at_pos) simp
    have n0: "0 < n" by (simp add: n)
    have tk: "take (n - 1) (drop 1 s) = take ?w (x # rest)" by (simp add: s n)
    have dr: "drop n s = drop ?w (x # rest)" by (simp add: s n)
    have "length (drop n s) < length s" using wp by (simp add: s n)
    from less[OF this]
    have IH: "replace_spec discordMarkdownUnscaper (\<lambda>m c. Inr (expand_group1 c)) (drop n s)
                = Inr (unescape_spec (drop n s))" .
    have "replace_spec discordMarkdownUnscaper (\<lambda>m c. Inr (expand_group1 c)) s
            = Inr (take ?w (x # rest) @ unescape_spec (drop ?w (x # rest)))"
      using Some IH n0 tk
      by (simp add: replace_spec.simps[of _ _ s] match_here_unscaper dr expand_group1_def)
    also have "\<dots> = Inr (unescape_spec s)"
      using x unescape_spec_rune[of x rest] by (simp add: s)
    finally show ?thesis .
  qed
qed

lemma unescape_unescape_spec: "unescape s = unescape_spec s"
proof -
  have "replaceAll discordMarkdownUnscaper s (\<lambda>(a0, a1, c). Inr (expand_group1 c)) 0 0 [] =
          (case replace_spec discordMarkdownUnscaper (\<lambda>m c. Inr (expand_group1 c)) (drop 0 s) of
             Inl e \<Rightarrow> Inl e
           | Inr out \<Rightarrow> Inr ([] @ out))"
    by (rule replaceAll_spec[OF ascii_start_unscaper]) simp_all
  then show ?thesis
    by (simp add: unescape_def ReplaceAllString_group1_def replace_spec_unscaper)
qed

section \<open>The escape loop, read position by position\<close>

lemma Replace_escaper:
  "Replace discordMarkdownEscaper u =
     concat (map (\<lambda>c. if c \<in> EscapeToken then [backslash, c] else [c]) u)"
  by (induction u) (auto simp: Replace_def discordMarkdownEscaper_def EscapeToken_def)

lemma cells_Nil [simp]: "cells spans off [] = []"
  by (simp add: cells_def)

lemma cells_Cons: "cells spans off (x # xs) = escaped_at spans (off, x) @ cells spans (Suc off) xs"
  by (simp add: cells_def)

lemma cells_append: "cells spans off (u @ v) = cells spans off u @ cells spans (off + length u) v"
  by (induction u arbitrary: off) (simp_all add: cells_Cons)

lemma cells_outside:
  "(\<And>i. off \<le> i \<Longrightarrow> i < off + length u \<Longrightarrow> \<not> in_span spans i) \<Longrightarrow>
   cells spans off u = Replace discordMarkdownEscaper u"
proof (induction u arbitrary: off)
  case Nil
  then show ?case by (simp add: Replace_def)
next
  case (Cons x xs)
  have "\<not> in_span spans off" using Cons.prems[of off] by simp
  moreover have "cells spans (Suc off) xs = Replace discordMarkdownEscaper xs"
    by (rule Cons.IH) (use Cons.prems in auto)
  ultimately show ?case by (simp add: cells_Cons escaped_at_def Replace_escaper)
qed

lemma cells_inside:
  "(\<And>i. off \<le> i \<Longrightarrow> i < off + length u \<Longrightarrow> in_span spans i) \<Longrightarrow> cells spans off u = u"
proof (induction u arbitrary: off)
  case Nil
  then show ?case by simp
next
  case (Cons x xs)
  have "in_span spans off" using Cons.prems[of off] by simp
  moreover have "cells spans (Suc off) xs = xs"
    by (rule Cons.IH) (use Cons.prems in auto)
  ultimately show ?case by (simp add: cells_Cons escaped_at_def)
qed

lemma cells_cong:
  "(\<And>i. off \<le> i \<Longrightarrow> i < off + length u \<Longrightarrow> in_span sp i = in_span sp' i) \<Longrightarrow>
   cells sp off u = cells sp' off u"
proof (induction u arbitrary: off)
  case Nil
  then show ?case by simp
next
  case (Cons x xs)
  have "in_span sp off = in_span sp' off" using Cons.prems[of off] by simp
  moreover have "cells sp (Suc off) xs = cells sp' (Suc off) xs"
    by (rule Cons.IH) (use Cons.prems in auto)
  ultimately show ?case by (simp add: cells_Cons escaped_at_def)
qed

lemma ordered_end: "ordered lo ms n \<Longrightarrow> lo \<le> end_of lo ms \<and> end_of lo ms \<le> n"
  by (induction lo ms n rule: ordered.induct) auto

lemma ordered_before: "ordered lo ms n \<Longrightarrow> i < lo \<Longrightarrow> \<not> in_span ms i"
  by (induction lo ms n rule: ordered.induct) (auto simp: in_span_def)

lemma ordered_after: "ordered lo ms n \<Longrightarrow> end_of lo ms \<le> i \<Longrightarrow> \<not> in_span ms i"
proof (induction lo ms n rule: ordered.induct)
  case (1 lo n)
  then show ?case by (simp add: in_span_def)
next
  case (2 lo a b ms n)
  from "2.prems" have o: "ordered b ms n" and e: "end_of b ms \<le> i" by simp_all
  from ordered_end[OF o] e have "b \<le> i" by simp
  moreover from "2.IH"[OF o e] have "\<not> in_span ms i" .
  ultimately show ?case by (simp add: in_span_def)
qed

lemma slice_ok: "lo \<le> hi \<Longrightarrow> hi \<le> length s \<Longrightarrow> slice s lo hi = Inr (take (hi - lo) (drop lo s))"
  by (simp add: slice_def)

lemma take_drop_split:
  "lo \<le> mid \<Longrightarrow> mid \<le> hi \<Longrightarrow>
   take (hi - lo) (drop lo s) = take (mid - lo) (drop lo s) @ take (hi - mid) (drop mid s)"
proof -
  assume a: "lo \<le> mid" "mid \<le> hi"
  then have "hi - lo = (mid - lo) + (hi - mid)" by simp
  then have "take (hi - lo) (drop lo s)
               = take (mid - lo) (drop lo s) @ take (hi - mid) (drop (mid - lo) (drop lo s))"
    by (simp only: take_add)
  with a show ?thesis by simp
qed

lemma escape_loop_cells:
  "ordered offset ms (length s) \<Longrightarrow>
   escape_loop s ms builder offset =
     Inr (builder @ cells ms offset (take (end_of offset ms - offset) (drop offset s)),
          end_of offset ms)"
proof (induction ms arbitrary: builder offset)
  case Nil
  then show ?case by simp
next
  case (Cons m ms)
  obtain a b where m: "m = (a, b)" by (cases m)
  from Cons.prems m have oa: "offset \<le> a" and ab: "a \<le> b" and o: "ordered b ms (length s)"
    by simp_all
  let ?e = "end_of b ms"
  from ordered_end[OF o] have be: "b \<le> ?e" and en: "?e \<le> length s" by simp_all
  let ?X = "take (a - offset) (drop offset s)"
  let ?Y = "take (b - a) (drop a s)"
  let ?Z = "take (?e - b) (drop b s)"
  have lx: "length ?X = a - offset" using ab be en by simp
  have ly: "length ?Y = b - a" using be en by simp
  have split: "take (?e - offset) (drop offset s) = ?X @ ?Y @ ?Z"
  proof -
    have "take (?e - offset) (drop offset s) = ?X @ take (?e - a) (drop a s)"
      by (rule take_drop_split) (use oa ab be in simp_all)
    also have "take (?e - a) (drop a s) = ?Y @ ?Z"
      by (rule take_drop_split) (use ab be in simp_all)
    finally show ?thesis .
  qed
  have cx: "cells (m # ms) offset ?X = Replace discordMarkdownEscaper ?X"
  proof (rule cells_outside)
    fix i assume "offset \<le> i" "i < offset + length ?X"
    with lx oa have "i < a" by simp
    with ab have "i < b" by simp
    from ordered_before[OF o this] \<open>i < a\<close> show "\<not> in_span (m # ms) i"
      by (simp add: in_span_def m)
  qed
  have cy: "cells (m # ms) a ?Y = ?Y"
  proof (rule cells_inside)
    fix i assume "a \<le> i" "i < a + length ?Y"
    with ly ab show "in_span (m # ms) i" by (simp add: in_span_def m)
  qed
  have cz: "cells (m # ms) b ?Z = cells ms b ?Z"
  proof (rule cells_cong)
    fix i assume "b \<le> i"
    then show "in_span (m # ms) i = in_span ms i" by (simp add: in_span_def m)
  qed
  have "cells (m # ms) offset (?X @ ?Y @ ?Z)
          = Replace discordMarkdownEscaper ?X @ ?Y @ cells ms b ?Z"
    using cx cy cz lx ly oa ab by (simp add: cells_append)
  moreover have "escape_loop s (m # ms) builder offset
          = escape_loop s ms (builder @ Replace discordMarkdownEscaper ?X @ ?Y) b"
    using oa ab be en by (simp add: m slice_ok)
  moreover have "escape_loop s ms (builder @ Replace discordMarkdownEscaper ?X @ ?Y) b
          = Inr ((builder @ Replace discordMarkdownEscaper ?X @ ?Y) @ cells ms b ?Z, ?e)"
    by (rule Cons.IH[OF o])
  ultimately show ?case using split by (simp add: m)
qed

lemma escapeDiscordMarkdown_cells:
  "escapeDiscordMarkdown s = Inr (escape_spec (FindAllStringIndex discordLinkRegex s) s)"
proof -
  let ?L = "FindAllStringIndex discordLinkRegex s"
  have o: "ordered 0 ?L (length s)"
    unfolding FindAllStringIndex_def by (rule allMatches_ordered) simp
  show ?thesis
  proof (cases "?L = []")
    case True
    have "cells [] 0 s = Replace discordMarkdownEscaper s"
      by (rule cells_outside) (simp add: in_span_def)
    with True show ?thesis by (simp add: escapeDiscordMarkdown_def escape_spec_def)
  next
    case False
    let ?e = "end_of 0 ?L"
    from ordered_end[OF o] have en: "?e \<le> length s" by simp
    have loop: "escape_loop s ?L [] 0 = Inr ([] @ cells ?L 0 (take (?e - 0) (drop 0 s)), ?e)"
      by (rule escape_loop_cells[OF o])
    have tail: "cells ?L ?e (drop ?e s) = Replace discordMarkdownEscaper (drop ?e s)"
    proof (rule cells_outside)
      fix i assume "?e \<le> i"
      from ordered_after[OF o this] show "\<not> in_span ?L i" .
    qed
    have "cells ?L 0 s = cells ?L 0 (take ?e s) @ cells ?L ?e (drop ?e s)"
      using cells_append[of ?L 0 "take ?e s" "drop ?e s"] en by (simp add: min_def)
    then have "cells ?L 0 s = cells ?L 0 (take ?e s) @ Replace discordMarkdownEscaper (drop ?e s)"
      by (simp add: tail)
    with False loop en show ?thesis
      by (simp add: escapeDiscordMarkdown_def escape_spec_def slice_from_def slice_ok Let_def)
  qed
qed

lemma escape_spec_no_token: "set s \<inter> EscapeToken = {} \<Longrightarrow> cells spans off s = s"
  by (induction s arbitrary: off) (auto simp: cells_Cons escaped_at_def)

lemma unescape_Replace: "unescape_spec (Replace discordMarkdownEscaper s) = s"
proof (induction s)
  case Nil
  then show ?case by (simp add: Replace_def)
next
  case (Cons c cs)
  have r: "Replace discordMarkdownEscaper (c # cs)
             = (if c \<in> EscapeToken then [backslash, c] else [c]) @ Replace discordMarkdownEscaper cs"
    by (simp add: Replace_escaper)
  show ?case
  proof (cases "c \<in> EscapeToken")
    case True
    then have "c \<noteq> CHR 0x0A" by (auto simp: EscapeToken_def backslash_def)
    with True Cons show ?thesis by (simp add: r)
  next
    case False
    then have "c \<noteq> backslash" by (auto simp: EscapeToken_def)
    with False Cons show ?thesis by (simp add: r unescape_spec_other)
  qed
qed

section \<open>The link pattern, read directly\<close>

lemma first_state_append:
  "first_state (a @ b) = (case first_state a of Some st \<Rightarrow> Some st | None \<Rightarrow> first_state b)"
  by (cases a) (simp_all add: first_state_def)

lemma strip_prefix_iff: "(strip_prefix lit s = Some r) = (s = lit @ r)"
  by (induction lit s rule: strip_prefix.induct) auto

lemma backtrack_Str:
  "lit \<noteq> [] \<Longrightarrow> \<forall>ch\<in>set lit. byte ch < 128 \<Longrightarrow>
   backtrack (Str lit) (s, c) = (case strip_prefix lit s of Some r \<Rightarrow> [(r, c)] | None \<Rightarrow> [])"
proof (induction lit arbitrary: s rule: Str.induct)
  case 1
  then show ?case by simp
next
  case (2 ch)
  then show ?case by (cases s) (simp_all add: backtrack_Lit)
next
  case (3 ch v va)
  then show ?case by (cases s) (simp_all add: backtrack_Lit)
qed

lemma star_unfold:
  "backtrack (Star (Cls p)) (s, c) =
     (if s \<noteq> [] \<and> p (rune_at s) then backtrack (Star (Cls p)) (drop (width_at s) s, c) else [])
     @ [(s, c)]"
proof -
  have "backtrack (Star (Cls p)) (s, c) =
          concat (map (\<lambda>st'. if length (fst st') < length s then backtrack (Star (Cls p)) st' else [])
                      (backtrack (Cls p) (s, c)))
          @ [(s, c)]"
    by (rule backtrack.simps(5))
  then show ?thesis using width_at_pos[of s]
    by (simp del: backtrack.simps add: backtrack.simps(1))
qed

lemma tail_unfold:
  "backtrack (Cat (Star (Cls p)) (Cls q)) (s, c) =
     (if s \<noteq> [] \<and> p (rune_at s) then backtrack (Cat (Star (Cls p)) (Cls q)) (drop (width_at s) s, c)
      else [])
     @ (if s \<noteq> [] \<and> q (rune_at s) then [(drop (width_at s) s, c)] else [])"
proof -
  have cat: "\<And>st. backtrack (Cat (Star (Cls p)) (Cls q)) st
                 = concat (map (backtrack (Cls q)) (backtrack (Star (Cls p)) st))"
    by (rule backtrack.simps(2))
  have "backtrack (Cat (Star (Cls p)) (Cls q)) (s, c)
          = concat (map (backtrack (Cls q))
       ((if s \<noteq> [] \<and> p (rune_at s) then backtrack (Star (Cls p)) (drop (width_at s) s, c) else [])
        @ [(s, c)]))"
    unfolding cat by (subst star_unfold) (rule refl)
  also have "\<dots> =
       (if s \<noteq> [] \<and> p (rune_at s)
        then concat (map (backtrack (Cls q)) (backtrack (Star (Cls p)) (drop (width_at s) s, c)))
        else [])
       @ backtrack (Cls q) (s, c)"
    by (simp del: backtrack.simps)
  finally show ?thesis
    by (simp del: backtrack.simps add: backtrack.simps(1) cat)
qed

lemma link_tail_le: "link_tail s = Some n \<Longrightarrow> 0 < n \<and> n \<le> length s"
proof (induction s arbitrary: n rule: link_tail.induct)
  case (1 s)
  from "1.prems" have ne: "s \<noteq> []" by (simp add: link_tail.simps[of s] split: if_splits)
  have w: "0 < width_at s" "width_at s \<le> length s" using width_at_pos[OF ne] width_at_le by auto
  show ?case
  proof (cases "link_inner (rune_at s) \<and> link_tail (drop (width_at s) s) \<noteq> None")
    case True
    then obtain m where m: "link_tail (drop (width_at s) s) = Some m" by auto
    from "1.IH"[OF ne _ m] True have "m \<le> length s - width_at s" by simp
    moreover from "1.prems" ne True m have "n = width_at s + m"
      by (simp add: link_tail.simps[of s])
    ultimately show ?thesis using w by simp
  next
    case False
    with "1.prems" ne have "n = width_at s"
      by (auto simp: link_tail.simps[of s] split: if_splits option.splits)
    with w show ?thesis by simp
  qed
qed

lemma first_state_tail:
  "first_state (backtrack (Cat (Star (Cls link_inner)) (Cls link_final)) (s, c)) =
     (case link_tail s of Some n \<Rightarrow> Some (drop n s, c) | None \<Rightarrow> None)"
proof (induction s rule: link_tail.induct)
  case (1 s)
  let ?T = "Cat (Star (Cls link_inner)) (Cls link_final)"
  let ?w = "width_at s"
  note unf = tail_unfold[of link_inner link_final s c]
  show ?case
  proof (cases "s = []")
    case True
    have "backtrack ?T (s, c) = []" unfolding unf using True by (simp del: backtrack.simps)
    then show ?thesis using True by (simp add: link_tail.simps[of "[]"] first_state_def)
  next
    case ne: False
    show ?thesis
    proof (cases "link_inner (rune_at s)")
      case True
      from "1.IH"[OF ne True]
      have IH: "first_state (backtrack ?T (drop ?w s, c)) =
        (case link_tail (drop ?w s) of Some n \<Rightarrow> Some (drop n (drop ?w s), c) | None \<Rightarrow> None)" .
      have b: "backtrack ?T (s, c) = backtrack ?T (drop ?w s, c)
                 @ (if link_final (rune_at s) then [(drop ?w s, c)] else [])"
        unfolding unf using ne True by (simp del: backtrack.simps)
      show ?thesis
      proof (cases "link_tail (drop ?w s)")
        case None
        with IH have "first_state (backtrack ?T (drop ?w s, c)) = None" by simp
        then have "first_state (backtrack ?T (s, c))
                     = first_state (if link_final (rune_at s) then [(drop ?w s, c)] else [])"
          unfolding b by (simp del: backtrack.simps add: first_state_append)
        also have "\<dots> = (case link_tail s of Some n \<Rightarrow> Some (drop n s, c) | None \<Rightarrow> None)"
          using ne True None by (simp add: link_tail.simps[of s] first_state_def)
        finally show ?thesis .
      next
        case (Some n)
        with IH have "first_state (backtrack ?T (drop ?w s, c)) = Some (drop n (drop ?w s), c)"
          by simp
        then have "first_state (backtrack ?T (s, c)) = Some (drop n (drop ?w s), c)"
          unfolding b by (simp del: backtrack.simps add: first_state_append)
        also have "\<dots> = (case link_tail s of Some n \<Rightarrow> Some (drop n s, c) | None \<Rightarrow> None)"
          using ne True Some by (simp add: link_tail.simps[of s] add.commute)
        finally show ?thesis .
      qed
    next
      case False
      have b: "backtrack ?T (s, c) = (if link_final (rune_at s) then [(drop ?w s, c)] else [])"
        unfolding unf using ne False by (simp del: backtrack.simps)
      show ?thesis unfolding b
        using ne False by (simp add: link_tail.simps[of s] first_state_def)
    qed
  qed
qed

lemma scheme_rest_https: "scheme_rest (''https://'' @ v) = Some v"
  by (simp add: scheme_rest_def)

lemma scheme_rest_http: "scheme_rest (''http://'' @ v) = Some v"
  by (simp add: scheme_rest_def)

lemma scheme_restD: "scheme_rest s = Some v \<Longrightarrow> s = ''https://'' @ v \<or> s = ''http://'' @ v"
proof -
  assume a: "scheme_rest s = Some v"
  then obtain u where u: "strip_prefix ''http'' s = Some u"
    by (auto simp: scheme_rest_def split: option.splits)
  then have s: "s = ''http'' @ u" by (simp only: strip_prefix_iff)
  show ?thesis
  proof (cases "strip_prefix ''s://'' u")
    case None
    with a u have "strip_prefix ''://'' u = Some v" by (simp add: scheme_rest_def)
    then have "u = ''://'' @ v" by (simp only: strip_prefix_iff)
    then show ?thesis unfolding s by simp
  next
    case (Some v')
    with a u have "v' = v" by (simp add: scheme_rest_def)
    with Some have "u = ''s://'' @ v" by (simp only: strip_prefix_iff)
    then show ?thesis unfolding s by simp
  qed
qed

lemma scheme_rest_iff:
  "(scheme_rest s = Some v) = (s = ''https://'' @ v \<or> s = ''http://'' @ v)"
  using scheme_restD[of s v] scheme_rest_https[of v] scheme_rest_http[of v] by blast

lemma backtrack_after_scheme:
  "backtrack (Cat (Str ''://'') T) (u, c) =
     (case strip_prefix ''://'' u of Some v \<Rightarrow> backtrack T (v, c) | None \<Rightarrow> [])"
proof -
  have "backtrack (Cat (Str ''://'') T) (u, c)
          = concat (map (backtrack T) (backtrack (Str ''://'') (u, c)))"
    by (rule backtrack.simps(2))
  also have "backtrack (Str ''://'') (u, c)
               = (case strip_prefix ''://'' u of Some r \<Rightarrow> [(r, c)] | None \<Rightarrow> [])"
    by (rule backtrack_Str) (simp_all add: byte_def)
  finally show ?thesis by (simp del: backtrack.simps Str.simps split: option.splits)
qed

lemma backtrack_opt_s:
  "backtrack (Cat (Opt (Lit CHR ''s'')) (Cat (Str ''://'') T)) (u, c) =
     (case (case strip_prefix ''s://'' u of Some v \<Rightarrow> Some v | None \<Rightarrow> strip_prefix ''://'' u) of
        Some v \<Rightarrow> backtrack T (v, c)
      | None \<Rightarrow> [])"
proof -
  let ?R = "Cat (Str ''://'') T"
  have "backtrack (Cat (Opt (Lit CHR ''s'')) ?R) (u, c)
          = concat (map (backtrack ?R) (backtrack (Opt (Lit CHR ''s'')) (u, c)))"
    by (rule backtrack.simps(2))
  also have "backtrack (Opt (Lit CHR ''s'')) (u, c) = backtrack (Lit CHR ''s'') (u, c) @ [(u, c)]"
    by (rule backtrack.simps(4))
  also have "backtrack (Lit CHR ''s'') (u, c)
               = (case u of [] \<Rightarrow> [] | x # xs \<Rightarrow> if x = CHR ''s'' then [(xs, c)] else [])"
    by (rule backtrack_Lit) (simp add: byte_def)
  finally have "backtrack (Cat (Opt (Lit CHR ''s'')) ?R) (u, c)
        = concat (map (backtrack ?R)
            ((case u of [] \<Rightarrow> [] | x # xs \<Rightarrow> if x = CHR ''s'' then [(xs, c)] else []) @ [(u, c)]))" .
  then show ?thesis
    by (cases u)
       (simp_all del: backtrack.simps Str.simps add: backtrack_after_scheme split: option.splits)
qed

lemma backtrack_link:
  "backtrack discordLinkRegex (s, c) =
     (case scheme_rest s of
        Some v \<Rightarrow> backtrack (Cat (Star (Cls link_inner)) (Cls link_final)) (v, c)
      | None \<Rightarrow> [])"
proof -
  let ?R = "Cat (Opt (Lit CHR ''s'')) (Cat (Str ''://'') (Cat (Star (Cls link_inner)) (Cls link_final)))"
  have "backtrack discordLinkRegex (s, c)
          = concat (map (backtrack ?R) (backtrack (Str ''http'') (s, c)))"
    unfolding discordLinkRegex_def by (rule backtrack.simps(2))
  also have "backtrack (Str ''http'') (s, c)
               = (case strip_prefix ''http'' s of Some r \<Rightarrow> [(r, c)] | None \<Rightarrow> [])"
    by (rule backtrack_Str) (simp_all add: byte_def)
  finally show ?thesis
    by (simp del: backtrack.simps Str.simps add: backtrack_opt_s scheme_rest_def
             split: option.splits)
qed

lemma match_here_first:
  "match_here re s =
     (case first_state (backtrack re (s, [])) of
        None \<Rightarrow> None
      | Some st \<Rightarrow> Some (length s - length (fst st), snd st))"
  by (simp add: match_here_def first_state_def split: list.splits)

lemma match_here_link:
  "match_here discordLinkRegex s = (case link_len s of Some n \<Rightarrow> Some (n, []) | None \<Rightarrow> None)"
proof (cases "scheme_rest s")
  case None
  then show ?thesis
    by (simp add: match_here_first backtrack_link link_len_def first_state_def)
next
  case (Some v)
  from scheme_restD[OF this] have lv: "length v \<le> length s" by auto
  show ?thesis
  proof (cases "link_tail v")
    case None
    with Some show ?thesis
      by (simp add: match_here_first backtrack_link link_len_def first_state_tail
               del: backtrack.simps)
  next
    case (Some n)
    have "match_here discordLinkRegex s = Some (length s - length (drop n v), [])"
      using Some \<open>scheme_rest s = Some v\<close>
      by (simp add: match_here_first backtrack_link first_state_tail
               del: length_drop backtrack.simps)
    also have "length s - length (drop n v) = length s - length v + n"
      using link_tail_le[OF Some] lv by simp
    finally show ?thesis
      using Some \<open>scheme_rest s = Some v\<close> by (simp add: link_len_def)
  qed
qed

lemma link_len_SomeD: "link_len s = Some n \<Longrightarrow> s \<noteq> [] \<and> hd s = CHR ''h'' \<and> 0 < n"
proof -
  assume a: "link_len s = Some n"
  then obtain v m where v: "scheme_rest s = Some v" and m: "link_tail v = Some m"
    and n: "n = length s - length v + m"
    by (auto simp: link_len_def split: option.splits)
  from v have "s = ''https://'' @ v \<or> s = ''http://'' @ v" by (simp add: scheme_rest_iff)
  then have "s \<noteq> [] \<and> hd s = CHR ''h''" by auto
  with link_tail_le[OF m] n show ?thesis by simp
qed

lemma ascii_start_link: "ascii_start discordLinkRegex"
  unfolding ascii_start_def
proof (intro allI impI)
  fix s n c
  assume "match_here discordLinkRegex s = Some (n, c)"
  then have "link_len s = Some n" by (simp add: match_here_link split: option.splits)
  from link_len_SomeD[OF this] show "s \<noteq> [] \<and> byte (hd s) < 128 \<and> 0 < n"
    by (simp add: byte_def)
qed

lemma FindAll_link: "FindAllStringIndex discordLinkRegex s = all_spec discordLinkRegex s"
proof -
  have "map (\<lambda>(a, b, c). (a, b)) (allMatches discordLinkRegex s 0 (- 1)) =
          map (\<lambda>(a, b). (0 + a, 0 + b)) (all_spec discordLinkRegex (drop 0 s))"
    by (rule allMatches_spec[OF ascii_start_link]) simp
  then show ?thesis by (simp add: FindAllStringIndex_def)
qed

lemma all_link_Nil: "all_spec discordLinkRegex [] = []"
  by (simp add: all_spec.simps[of _ "[]"] match_here_link link_len_def scheme_rest_def)

lemma all_link_other:
  "link_len (x # xs) = None \<Longrightarrow>
   all_spec discordLinkRegex (x # xs) = map (\<lambda>(a, b). (Suc a, Suc b)) (all_spec discordLinkRegex xs)"
  by (simp add: all_spec.simps[of _ "x # xs"] match_here_link)

lemma all_link_match:
  "link_len s = Some n \<Longrightarrow>
   all_spec discordLinkRegex s
     = (0, n) # map (\<lambda>(a, b). (n + a, n + b)) (all_spec discordLinkRegex (drop n s))"
  using link_len_SomeD[of s n] by (simp add: all_spec.simps[of _ s] match_here_link)

lemma link_len_not_h: "x \<noteq> CHR ''h'' \<Longrightarrow> link_len (x # xs) = None"
  by (simp add: link_len_def scheme_rest_def)

lemma all_link_unfold:
  "all_spec discordLinkRegex s =
     (case link_len s of
        Some n \<Rightarrow> (0, n) # map (\<lambda>(a, b). (n + a, n + b)) (all_spec discordLinkRegex (drop n s))
      | None \<Rightarrow>
          (case s of
             [] \<Rightarrow> []
           | x # xs \<Rightarrow> map (\<lambda>(a, b). (Suc a, Suc b)) (all_spec discordLinkRegex xs)))"
proof (cases "link_len s")
  case None
  then show ?thesis by (cases s) (simp_all add: all_link_Nil all_link_other)
next
  case (Some n)
  then show ?thesis by (simp add: all_link_match)
qed

lemmas link_eval =
  FindAll_link all_link_unfold link_len_def scheme_rest_def link_tail.simps
  rune_at_def width_at_def byte_def link_inner_def link_final_def Zs_def
  decode2_def decode3_def decode4_def is_cont_def RuneError_def

section \<open>The runes of a matched link\<close>





lemma runes_Nil [simp]: "runes [] = []"
  by (simp add: runes.simps)







section \<open>The shape of a matched link\<close>



section \<open>Rules for evaluating the examples\<close>

lemmas escape_eval =
  escape_spec_def cells_def escaped_at_def in_span_def EscapeToken_def backslash_def


section \<open>The claims\<close>

subsection \<open>Escaping\<close>

text \<open>
  C3. \<open>escapeDiscordMarkdown\<close> never panics, and its result reads the input position by
  position (\<open>escape_spec\<close>): a byte that lies in no span found by the link pattern and is
  an escape token is written with a backslash before it; every other byte, that is every
  byte of a matched span and every byte that is no escape token, is written as it is.
\<close>

theorem escapeDiscordMarkdown_positions:
  "escapeDiscordMarkdown s = Inr (escape_spec (FindAllStringIndex discordLinkRegex s) s)"
  by (rule escapeDiscordMarkdown_cells)

theorem escapeDiscordMarkdown_positions_witness:
  "escapeDiscordMarkdown ''_a_ http://a_b/*x*. *y*''
     = Inr (backslash # ''_a'' @ backslash # ''_ http://a_b/*x*. '' @ backslash # ''*y'' @ backslash # ''*'')"
  using escapeDiscordMarkdown_positions[of "''_a_ http://a_b/*x*. *y*''"]
  by (simp add: link_eval escape_eval)

text \<open>
  C10. A string without any escape token is returned as it is, with or without links in
  it.
\<close>

theorem escapeDiscordMarkdown_no_token:
  "set s \<inter> EscapeToken = {} \<Longrightarrow> escapeDiscordMarkdown s = Inr s"
  by (simp add: escapeDiscordMarkdown_cells escape_spec_def escape_spec_no_token)

theorem escapeDiscordMarkdown_no_token_witness:
  "set ''see http://example.com/a.'' \<inter> EscapeToken = {}
   \<and> escapeDiscordMarkdown ''see http://example.com/a.'' = Inr ''see http://example.com/a.''"
proof -
  have h: "set ''see http://example.com/a.'' \<inter> EscapeToken = {}"
    by (simp add: EscapeToken_def backslash_def)
  from h escapeDiscordMarkdown_no_token[OF h] show ?thesis by simp
qed

text \<open>
  C1. For a string made of escape tokens only in which the link pattern finds nothing,
  escaping does not panic and un-escaping the result gives the string back.
\<close>

theorem unescape_escape:
  "set s \<subseteq> EscapeToken \<Longrightarrow> FindAllStringIndex discordLinkRegex s = [] \<Longrightarrow>
   \<exists>t. escapeDiscordMarkdown s = Inr t \<and> unescape t = s"
  by (simp add: escapeDiscordMarkdown_def unescape_unescape_spec unescape_Replace)

theorem unescape_escape_witness:
  "set (backslash # ''_*~`|<<_'') \<subseteq> EscapeToken
   \<and> FindAllStringIndex discordLinkRegex (backslash # ''_*~`|<<_'') = []
   \<and> (\<exists>t. escapeDiscordMarkdown (backslash # ''_*~`|<<_'') = Inr t
          \<and> unescape t = backslash # ''_*~`|<<_'')"
proof -
  have h1: "set (backslash # ''_*~`|<<_'') \<subseteq> EscapeToken"
    by (simp add: EscapeToken_def)
  have h2: "FindAllStringIndex discordLinkRegex (backslash # ''_*~`|<<_'') = []"
    by (simp add: link_eval backslash_def)
  from h1 h2 unescape_escape[OF h1 h2] show ?thesis by blast
qed

subsection \<open>The link pattern\<close>




subsection \<open>The escape fixer\<close>

text \<open>
  C4, as amended. The pass never panics, and its result is that of one scan from left to
  right (\<open>fix_spec\<close>): where the text reads a backslash, two equal delimiters (\<open>__\<close> or
  \<open>**\<close>) and a byte other than that delimiter, the scan writes the backslash, the first
  delimiter, a new backslash, the second delimiter and that byte, and goes on after it;
  every other byte is copied. The new backslash stands between the two delimiters, not
  after the pair, and an occurrence that begins at the last byte of a rewritten one is
  not rewritten.
\<close>

theorem fixEscapes_scan: "fixEscapes text = Inr (fix_spec text)"
  by (rule fixEscapes_fix_spec)

theorem fixEscapes_scan_witness:
  "fixEscapes (''a '' @ backslash # ''**b** '' @ backslash # ''__c'')
     = Inr (''a '' @ backslash # ''*'' @ backslash # ''*b** '' @ backslash # ''_'' @ backslash # ''_c'')"
  using fixEscapes_scan[of "''a '' @ backslash # ''**b** '' @ backslash # ''__c''"]
  by (simp add: backslash_def)

text \<open>
  The claim as stated fails: for the text \<open>\__a\<close> it asks for \<open>\__\a\<close> (the new backslash
  after the pair, before the following character); the pass gives \<open>\_\_a\<close>. And of the
  two occurrences in \<open>\**\__a\<close> only the first is rewritten.
\<close>

theorem fixEscapes_after_pair_counterexample:
  "fixEscapes (backslash # ''__a'') = Inr (backslash # ''_'' @ backslash # ''_a'')
   \<and> fixEscapes (backslash # ''__a'') \<noteq> Inr (backslash # ''__'' @ backslash # ''a'')
   \<and> fixEscapes (backslash # ''**'' @ backslash # ''__a'')
       = Inr (backslash # ''*'' @ backslash # ''*'' @ backslash # ''__a'')"
  by (simp add: fixEscapes_fix_spec backslash_def)

text \<open>
  C9, as amended. The pass is idempotent on exactly the texts in which no occurrence that
  the scan rewrites ends in a backslash that begins another occurrence (\<open>no_overlap\<close>):
  on these texts, and on no others, a second pass changes nothing.
\<close>

theorem fixEscapes_idempotent_iff:
  "(\<exists>t. fixEscapes text = Inr t \<and> fixEscapes t = Inr t) = no_overlap text"
  using fix_spec_idem[of "text"] fix_spec_not_idem[of "text"]
  by (auto simp: fixEscapes_fix_spec)

theorem fixEscapes_idempotent_iff_witness:
  "no_overlap (backslash # ''__a'' @ backslash # ''**b'')
   \<and> (\<exists>t. fixEscapes (backslash # ''__a'' @ backslash # ''**b'') = Inr t \<and> fixEscapes t = Inr t)"
  using fixEscapes_idempotent_iff[of "backslash # ''__a'' @ backslash # ''**b''"]
  by (simp add: backslash_def)

text \<open>
  The claim as stated fails: the pass turns \<open>\__\__a\<close> into \<open>\_\_\__a\<close>, which still
  holds an occurrence, and a second pass turns that into \<open>\_\_\_\_a\<close>.
\<close>

theorem fixEscapes_idempotent_counterexample:
  "fixEscapes (backslash # ''__'' @ backslash # ''__a'')
     = Inr (backslash # ''_'' @ backslash # ''_'' @ backslash # ''__a'')
   \<and> fixEscapes (backslash # ''_'' @ backslash # ''_'' @ backslash # ''__a'')
     = Inr (backslash # ''_'' @ backslash # ''_'' @ backslash # ''_'' @ backslash # ''_a'')
   \<and> backslash # ''_'' @ backslash # ''_'' @ backslash # ''_'' @ backslash # ''_a''
     \<noteq> backslash # ''_'' @ backslash # ''_'' @ backslash # ''__a''"
  by (simp add: fixEscapes_fix_spec backslash_def)

subsection \<open>Mentions\<close>

lemma is_token_channel: "is_token (''<#'' @ channel @ ''>'')"
  unfolding is_token_def by blast

lemma is_token_user: "is_token (''<@'' @ user @ ''>'')"
  unfolding is_token_def by blast

lemma is_token_permalink:
  "is_token (''https://discord.com/channels/'' @ guild @ ''/'' @ channel @ ''/'' @ message)"
  unfolding is_token_def by blast

lemma pill_target_result:
  "mxid \<noteq> [] \<Longrightarrow>
   \<exists>t. pill_target user displayname mxid eventID = Inr t \<and> (t = displayname \<or> is_token t)"
  using is_token_channel is_token_user is_token_permalink is_token_permalink[of "''@me''"]
  unfolding pill_target_def
  by (cases mxid) (simp_all add: Let_def split: option.splits prod.splits)

text \<open>
  The context that \<open>parseMatrixHTML\<close> builds holds the user, and no other context is
  built in the source, so the type assertion at the top of \<open>pillConverter\<close> holds
  whenever the function is called.
\<close>

lemma pill_target_no_assertion:
  "pill_target user displayname mxid eventID \<noteq> Inl TypeAssertion"
  unfolding pill_target_def
  by (cases mxid) (simp_all add: Let_def split: option.splits prod.splits)

lemma pillConverter_user_in_context:
  "pillConverter displayname mxid eventID
     [formatterContextUserKey \<mapsto> UserPtr user, formatterContextPortalKey \<mapsto> PortalPtr portal]
     \<noteq> Inl TypeAssertion"
proof -
  have ctx: "[formatterContextUserKey \<mapsto> UserPtr user, formatterContextPortalKey \<mapsto> PortalPtr portal]
               formatterContextUserKey = Some (UserPtr user)"
    by (simp add: formatterContextUserKey_def formatterContextPortalKey_def)
  show ?thesis
  proof (cases mxid)
    case Nil
    then show ?thesis by (simp add: pillConverter_def)
  next
    case (Cons c cs)
    show ?thesis
      unfolding pillConverter_def Cons list.case ctx option.case ctx_value.case
      using pill_target_no_assertion
      by (simp split: option.splits)
  qed
qed

text \<open>
  What \<open>pillConverter\<close> does everywhere else. An empty reference gives the display text
  back. With the user in the context, an alias whose resolution fails gives the display
  text back; and unless the reference is an alias that resolves to an empty room id, the
  result is never an error, and is either the display text or one of the three tokens
  (channel mention, user mention, permalink).
\<close>

lemma pillConverter_degrades:
  "pillConverter displayname [] eventID ctx = Inr displayname
   \<and> (ctx formatterContextUserKey = Some (UserPtr user)
        \<longrightarrow> (ResolveAlias (bridge user) (CHR ''#'' # alias) = None
              \<longrightarrow> pillConverter displayname (CHR ''#'' # alias) eventID ctx = Inr displayname)
          \<and> (\<not> (\<exists>alias. mxid = CHR ''#'' # alias \<and> ResolveAlias (bridge user) mxid = Some [])
              \<longrightarrow> (\<exists>t. pillConverter displayname mxid eventID ctx = Inr t
                        \<and> (t = displayname \<or> is_token t))))"
proof (intro conjI impI)
  show "pillConverter displayname [] eventID ctx = Inr displayname"
    by (simp add: pillConverter_def)
next
  assume "ctx formatterContextUserKey = Some (UserPtr user)"
    and "ResolveAlias (bridge user) (CHR ''#'' # alias) = None"
  then show "pillConverter displayname (CHR ''#'' # alias) eventID ctx = Inr displayname"
    by (simp add: pillConverter_def)
next
  assume u: "ctx formatterContextUserKey = Some (UserPtr user)"
    and ne: "\<not> (\<exists>alias. mxid = CHR ''#'' # alias \<and> ResolveAlias (bridge user) mxid = Some [])"
  show "\<exists>t. pillConverter displayname mxid eventID ctx = Inr t \<and> (t = displayname \<or> is_token t)"
  proof (cases mxid)
    case Nil
    then show ?thesis by (simp add: pillConverter_def)
  next
    case (Cons c cs)
    show ?thesis
    proof (cases "c = CHR ''#''")
      case False
      with Cons u pill_target_result[of mxid user displayname eventID] show ?thesis
        by (simp add: pillConverter_def)
    next
      case True
      show ?thesis
      proof (cases "ResolveAlias (bridge user) mxid")
        case None
        with Cons True u show ?thesis by (simp add: pillConverter_def)
      next
        case (Some roomID)
        with ne Cons True have "roomID \<noteq> []" by auto
        from pill_target_result[OF this, of user displayname eventID] Some Cons True u
        show ?thesis by (simp add: pillConverter_def)
      qed
    qed
  qed
qed

lemma pillConverter_degrades_example:
  "pillConverter ''Room'' ''#room:example.org'' [] [formatterContextUserKey \<mapsto> UserPtr example_user]
      = Inr ''Room''
   \<and> pillConverter ''Bob'' ''@bob:example.org'' [] [formatterContextUserKey \<mapsto> UserPtr example_user]
      = Inr ''Bob''"
  by (simp add: example_user_def no_bridge_def pillConverter_def pill_target_def)

text \<open>
  The one input on which it does not: an alias that resolves, without error, to an empty
  room id. The function guards \<open>mxid[0]\<close> with \<open>len(mxid) == 0\<close> at its top, and does not
  repeat the guard after \<open>mxid\<close> is assigned the resolved room id, so the second
  \<open>mxid[0]\<close> is out of range.
\<close>

lemma pillConverter_empty_room_id:
  "ctx formatterContextUserKey = Some (UserPtr user) \<Longrightarrow>
   ResolveAlias (bridge user) (CHR ''#'' # alias) = Some [] \<Longrightarrow>
   pillConverter displayname (CHR ''#'' # alias) eventID ctx = Inl IndexOutOfRange"
  by (simp add: pillConverter_def pill_target_def)

text \<open>
  C5. Mention resolution is to give a token or the display text for every input and never
  to fail. The code fails on the alias \<open>#room:example.org\<close> when the directory resolves
  it to an empty room id, in the context that \<open>parseMatrixHTML\<close> builds: the call panics
  with an index out of range and gives neither a token nor the display text.
\<close>

theorem pillConverter_empty_room_id_panics:
  "pillConverter ''Room'' ''#room:example.org'' []
     [formatterContextUserKey \<mapsto> UserPtr empty_alias_user,
      formatterContextPortalKey \<mapsto> PortalPtr dm_portal]
     = Inl IndexOutOfRange"
  by (simp add: pillConverter_def pill_target_def empty_alias_user_def empty_alias_bridge_def
        formatterContextUserKey_def formatterContextPortalKey_def)

text \<open>
  C6. For a room id (a reference that starts with \<open>!\<close>) with a message context, a known
  portal and a stored message, the result is the permalink made of the guild id, the
  native channel id of the message and its native message id; an empty guild id is
  replaced by \<open>@me\<close>.
\<close>

theorem pillConverter_permalink:
  assumes "ctx formatterContextUserKey = Some (UserPtr user)"
    and "GetPortalByMXID (bridge user) (CHR ''!'' # room) = Some portal"
    and "eventID \<noteq> []"
    and "GetByMXID (bridge user) (Key portal) eventID = Some msg"
  shows "pillConverter displayname (CHR ''!'' # room) eventID ctx
           = Inr (''https://discord.com/channels/''
                  @ (if GuildID portal = [] then ''@me'' else GuildID portal)
                  @ ''/'' @ DiscordProtoChannelID msg @ ''/'' @ DiscordID msg)"
  using assms by (simp add: pillConverter_def pill_target_def)

theorem pillConverter_permalink_witness:
  "pillConverter ''msg'' ''!room:example.org'' ''$event''
      [formatterContextUserKey \<mapsto> UserPtr (User ''1234'' dm_bridge)]
     = Inr ''https://discord.com/channels/@me/77/99''"
proof -
  have "pillConverter ''msg'' (CHR ''!'' # ''room:example.org'') ''$event''
          [formatterContextUserKey \<mapsto> UserPtr (User ''1234'' dm_bridge)]
        = Inr (''https://discord.com/channels/''
                  @ (if GuildID dm_portal = [] then ''@me'' else GuildID dm_portal)
                  @ ''/'' @ DiscordProtoChannelID dm_message @ ''/'' @ DiscordID dm_message)"
    by (rule pillConverter_permalink[where user = "User ''1234'' dm_bridge"])
       (simp_all add: dm_bridge_def)
  then show ?thesis by (simp add: dm_portal_def dm_message_def)
qed

subsection \<open>The monospace converter\<close>

lemma HasPrefix_backtick: "HasPrefix u ''`'' = (u \<noteq> [] \<and> hd u = CHR ''`'')"
  by (cases u) (auto simp: HasPrefix_def)

lemma HasSuffix_backtick: "HasSuffix u ''`'' = (u \<noteq> [] \<and> last u = CHR ''`'')"
proof (cases "u = []")
  case True
  then show ?thesis by (simp add: HasSuffix_def)
next
  case False
  then have "u = butlast u @ [last u]" by simp
  then have "drop (length u - 1) u = [last u]"
    by (metis append_eq_conv_conj length_butlast)
  with False show ?thesis by (auto simp: HasSuffix_def Suc_leI)
qed

text \<open>
  C7, as amended. The converter first un-escapes the content in one scan from left to
  right (\<open>unescape_spec\<close>): a backslash followed by a byte other than a line feed is
  dropped and that byte is kept; a backslash before a line feed, or at the very end,
  stays. Then it wraps the result in double backticks, with one space on the left when
  the un-escaped content starts with a backtick and one on the right when it ends with
  one, and no space otherwise.
\<close>

theorem MonospaceConverter_wraps:
  "MonospaceConverter s =
     (let u = unescape_spec s in
      ''``'' @ (if u \<noteq> [] \<and> hd u = CHR ''`'' then '' '' else [])
        @ u @ (if u \<noteq> [] \<and> last u = CHR ''`'' then '' '' else []) @ ''``'')"
  by (simp add: MonospaceConverter_def Let_def unescape_unescape_spec HasPrefix_backtick
        HasSuffix_backtick)

theorem MonospaceConverter_wraps_witness:
  "MonospaceConverter (backslash # ''`x'' @ backslash # ''`'') = ''`` `x` ``''
   \<and> MonospaceConverter (''a'' @ backslash # ''_b'') = ''``a_b``''"
  using MonospaceConverter_wraps[of "backslash # ''`x'' @ backslash # ''`''"]
        MonospaceConverter_wraps[of "''a'' @ backslash # ''_b''"]
  by (simp add: backslash_def)

text \<open>
  The claim as stated fails: a backslash before a line feed is an escape sequence that
  the converter leaves in place, since the dot of the pattern does not match a line feed.
\<close>

theorem MonospaceConverter_newline_counterexample:
  "MonospaceConverter [backslash, CHR 0x0A] = ''``'' @ [backslash, CHR 0x0A] @ ''``''
   \<and> MonospaceConverter [backslash, CHR 0x0A] \<noteq> ''``'' @ [CHR 0x0A] @ ''``''"
  by (simp add: MonospaceConverter_def Let_def unescape_unescape_spec HasPrefix_backtick
        HasSuffix_backtick backslash_def)

subsection \<open>\<open>parseMatrixHTML\<close>\<close>

text \<open>
  C8. When the format is not HTML or the formatted body is empty, the result is that of
  \<open>escapeDiscordMarkdown\<close> on the plain body; the HTML parser runs only when the format is
  HTML and the formatted body is not empty.
\<close>

theorem parseMatrixHTML_fallback:
  "(\<not> (Format content = FormatHTML \<and> FormattedBody content \<noteq> [])
      \<longrightarrow> parseMatrixHTML Parse portal user content = escapeDiscordMarkdown (Body content))
   \<and> (Format content = FormatHTML \<and> FormattedBody content \<noteq> []
      \<longrightarrow> parseMatrixHTML Parse portal user content
            = Parse (FormattedBody content)
                [formatterContextUserKey \<mapsto> UserPtr user,
                 formatterContextPortalKey \<mapsto> PortalPtr portal])"
  by (simp add: parseMatrixHTML_def)

theorem parseMatrixHTML_fallback_witness:
  "parseMatrixHTML (\<lambda>html ctx. Inr ''parsed'') dm_portal (User ''1234'' no_bridge)
      \<lparr>Format = FormatHTML, FormattedBody = [], Body = ''a_b''\<rparr>
     = Inr (''a'' @ backslash # ''_b'')
   \<and> parseMatrixHTML (\<lambda>html ctx. Inr ''parsed'') dm_portal (User ''1234'' no_bridge)
      \<lparr>Format = ''org.matrix.custom.html'', FormattedBody = ''<b>a_b</b>'', Body = ''a_b''\<rparr>
     = Inr ''parsed''"
  using parseMatrixHTML_fallback[of "\<lparr>Format = FormatHTML, FormattedBody = [], Body = ''a_b''\<rparr>"
          "\<lambda>html ctx. Inr ''parsed''" dm_portal "User ''1234'' no_bridge"]
        parseMatrixHTML_fallback[of
          "\<lparr>Format = ''org.matrix.custom.html'', FormattedBody = ''<b>a_b</b>'', Body = ''a_b''\<rparr>"
          "\<lambda>html ctx. Inr ''parsed''" dm_portal "User ''1234'' no_bridge"]
  by (simp add: FormatHTML_def escapeDiscordMarkdown_cells link_eval escape_eval)

end
